theory Spec2Isabelle
  imports Complex_Main "HOL-Library.Multiset" "HOL-Library.Product_Lexorder"
    "HOL-Library.List_Lexorder" "HOL-Library.Char_ord" "HOL-Library.Disjoint_Sets"
begin

section \<open>Errors as values\<close>

text \<open>The only exception the modelled code can raise is Python's IndexError, from
  subscripting a list out of range.\<close>

datatype py_error = IndexError

definition bind :: "py_error + 'a \<Rightarrow> ('a \<Rightarrow> py_error + 'b) \<Rightarrow> py_error + 'b" where
  "bind m f = (case m of Inl e \<Rightarrow> Inl e | Inr x \<Rightarrow> f x)"

fun mapM :: "('a \<Rightarrow> py_error + 'b) \<Rightarrow> 'a list \<Rightarrow> py_error + 'b list" where
  "mapM f [] = Inr []"
| "mapM f (x # xs) = bind (f x) (\<lambda>y. bind (mapM f xs) (\<lambda>ys. Inr (y # ys)))"

text \<open>\<open>xs[i]\<close> for a non-negative position \<open>i\<close>.\<close>

definition getitem :: "'a list \<Rightarrow> nat \<Rightarrow> py_error + 'a" where
  "getitem xs i = (if i < length xs then Inr (xs ! i) else Inl IndexError)"

lemma bind_Inr [simp]: "bind (Inr x) f = f x"
  by (simp add: bind_def)

lemma bind_Inl [simp]: "bind (Inl e) f = Inl e"
  by (simp add: bind_def)

lemma bind_cong [fundef_cong]:
  "m = m' \<Longrightarrow> (\<And>x. m' = Inr x \<Longrightarrow> f x = g x) \<Longrightarrow> bind m f = bind m' g"
  by (cases m') (simp_all add: bind_def)

lemma mapM_cong [fundef_cong]:
  "xs = ys \<Longrightarrow> (\<And>x. x \<in> set ys \<Longrightarrow> f x = g x) \<Longrightarrow> mapM f xs = mapM g ys"
proof (induction ys arbitrary: xs)
  case Nil
  then show ?case by simp
next
  case (Cons y ys)
  then show ?case by (cases xs) (auto intro: bind_cong)
qed

section \<open>Index-pairing generator\<close>

text \<open>A pairing is a Python list of 2-tuples of positions.  The generator of
  \<open>multipole_moments.py\<close> and the one of \<open>derivatives.py\<close> are the same text; one
  definition models both.  Orders and pair counts are natural numbers here: the
  generator is only ever called with \<open>n \<ge> 0\<close> and \<open>k \<ge> 1\<close> by the builders.\<close>

type_synonym pair = "nat \<times> nat"
type_synonym pairing = "pair list"

text \<open>\<open>[(i, j) for i in range(n) for j in range(i + 1, n)]\<close>\<close>

definition all_pairs :: "nat \<Rightarrow> pair list" where
  "all_pairs n = concat (map (\<lambda>i. map (\<lambda>j. (i, j)) [i + 1..<n]) [0..<n])"

text \<open>\<open>[idx for idx in range(n) if idx != i and idx != j]\<close>\<close>

definition remaining :: "nat \<Rightarrow> nat \<Rightarrow> nat \<Rightarrow> nat list" where
  "remaining n i j = filter (\<lambda>idx. idx \<noteq> i \<and> idx \<noteq> j) [0..<n]"

text \<open>\<open>tuple(remaining[idx] for idx in pair)\<close>\<close>

definition map_back :: "nat list \<Rightarrow> pair \<Rightarrow> py_error + pair" where
  "map_back rem p = bind (getitem rem (fst p)) (\<lambda>a. bind (getitem rem (snd p)) (\<lambda>b. Inr (a, b)))"

text \<open>The tuple that \<open>map_back\<close> returns when both positions are in range.\<close>

definition mapped_pair :: "nat list \<Rightarrow> pair \<Rightarrow> pair" where
  "mapped_pair rem q = (rem ! fst q, rem ! snd q)"

text \<open>\<open>tuple(sorted([tuple(sorted(p)) for p in pairing]))\<close>; tuples compare
  lexicographically.\<close>

definition sorted_pair :: "pair \<Rightarrow> pair" where
  "sorted_pair p = (if fst p \<le> snd p then p else (snd p, fst p))"

definition normalized :: "pairing \<Rightarrow> pairing" where
  "normalized pairing = sort (map sorted_pair pairing)"

text \<open>The de-duplication loop, with its \<open>seen\<close> set as an argument.\<close>

fun unique_from :: "pairing set \<Rightarrow> pairing list \<Rightarrow> pairing list" where
  "unique_from seen [] = []"
| "unique_from seen (p # ps) =
     (if normalized p \<in> seen then unique_from seen ps
      else p # unique_from (insert (normalized p) seen) ps)"

fun generate_k_pairings :: "nat \<Rightarrow> nat \<Rightarrow> py_error + pairing list" where
  "generate_k_pairings n 0 = Inr [[]]"
| "generate_k_pairings n (Suc 0) = Inr (map (\<lambda>p. [p]) (all_pairs n))"
| "generate_k_pairings n (Suc (Suc k)) =
     bind (mapM (\<lambda>first_pair.
             let rem = remaining n (fst first_pair) (snd first_pair) in
             if length rem \<ge> 2 * Suc k then
               bind (generate_k_pairings (length rem) (Suc k)) (\<lambda>sub_pairings.
                 mapM (\<lambda>sub_pairing.
                   bind (mapM (map_back rem) sub_pairing) (\<lambda>mapped_pairing.
                     Inr (first_pair # mapped_pairing))) sub_pairings)
             else Inr [])
           (all_pairs n))
       (\<lambda>chunks. Inr (unique_from {} (concat chunks)))"


text \<open>What the claims say about a pairing: its positions, the unordered pair behind a
  tuple, and the pairing as a set of unordered pairs.\<close>

definition positions :: "pairing \<Rightarrow> nat list" where
  "positions p = concat (map (\<lambda>q. [fst q, snd q]) p)"

definition unordered :: "pair \<Rightarrow> nat set" where
  "unordered q = {fst q, snd q}"

definition pair_set :: "pairing \<Rightarrow> nat set set" where
  "pair_set p = unordered ` set p"

definition valid_pairing :: "nat \<Rightarrow> pairing \<Rightarrow> bool" where
  "valid_pairing n p \<longleftrightarrow> (\<forall>q\<in>set p. fst q < snd q \<and> snd q < n) \<and> distinct (positions p)"

text \<open>All sets of \<open>k\<close> pairwise disjoint two-element subsets of \<open>A\<close>.\<close>

definition matchings :: "nat set \<Rightarrow> nat \<Rightarrow> nat set set set" where
  "matchings A k =
     {M. M \<subseteq> {e. e \<subseteq> A \<and> card e = 2} \<and> finite M \<and> card M = k \<and> disjoint M}"

text \<open>A list of pairings lists every set of \<open>k\<close> disjoint pairs of positions below
  \<open>n\<close> exactly once.\<close>

definition enumerates :: "nat \<Rightarrow> nat \<Rightarrow> pairing list \<Rightarrow> bool" where
  "enumerates n k ps \<longleftrightarrow>
     (\<forall>p\<in>set ps. valid_pairing n p \<and> length p = k) \<and>
     distinct (map pair_set ps) \<and>
     pair_set ` set ps = matchings {0..<n} k"

section \<open>Expressions as the builders write them\<close>

text \<open>The expression substrate is an external library.  An \<open>expr\<close> is the tree of
  Python operator applications that a builder performs: \<open>a * b\<close> is \<open>Mul a b\<close>,
  \<open>a - b\<close> is \<open>Sub a b\<close>, \<open>a / b\<close> is \<open>Div a b\<close>, \<open>a ** m\<close> is \<open>Pwr a m\<close>, unary
  minus is \<open>Neg\<close>, \<open>Expression.num(c)\<close> is \<open>Num c\<close>, a symbol \<open>S(name)\<close> is
  \<open>Sym name\<close> and a symbol applied to index labels is \<open>Fn name labels\<close>.  Index
  labels are symbols, identified by their names.\<close>

type_synonym label = string

datatype expr =
    Num int
  | Sym string
  | Fn string "label list"
  | Add expr expr
  | Sub expr expr
  | Mul expr expr
  | Div expr expr
  | Pwr expr int
  | Neg expr

text \<open>The symbols of \<open>TensorContraction.__init__\<close>.\<close>

definition xa :: "label \<Rightarrow> expr" where "xa i = Fn ''xa'' [i]"
definition x :: "label \<Rightarrow> expr" where "x i = Fn ''x'' [i]"
definition n_hat :: "label \<Rightarrow> expr" where "n_hat i = Fn ''n'' [i]"
definition delta :: "label \<Rightarrow> label \<Rightarrow> expr" where "delta i j = Fn ''delta'' [i, j]"
definition r0 :: expr where "r0 = Sym ''r0''"
definition ra0 :: expr where "ra0 = Sym ''ra0''"
definition dot_xa_n :: expr where "dot_xa_n = Fn ''dot'' [''xa'', ''n'']"

fun foldM :: "('b \<Rightarrow> 'a \<Rightarrow> py_error + 'b) \<Rightarrow> 'a list \<Rightarrow> 'b \<Rightarrow> py_error + 'b" where
  "foldM f [] acc = Inr acc"
| "foldM f (y # ys) acc = bind (f acc y) (foldM f ys)"

section \<open>Symmetric traceless moments (\<open>multipole_moments.py\<close>)\<close>

function double_factorial :: "int \<Rightarrow> int" where
  "double_factorial n =
     (if n \<le> 0 then 1 else if n = 1 then 1 else n * double_factorial (n - 2))"
  by pat_completeness auto
termination
  by (relation "measure nat") auto

declare double_factorial.simps [simp del]

text \<open>The set \<open>paired_positions\<close> of a pairing.\<close>

definition paired_positions :: "pairing \<Rightarrow> nat set" where
  "paired_positions pairing = fold (\<lambda>p acc. insert (snd p) (insert (fst p) acc)) pairing {}"

text \<open>One pass of the loop \<open>for pairing in all_pairings\<close> of \<open>_trace_with_k_pairs\<close>:
  the deltas of the pairs, then \<open>xa\<close> for every position of \<open>range(n)\<close> that is not
  paired.\<close>

definition trace_term :: "int \<Rightarrow> label list \<Rightarrow> pairing \<Rightarrow> py_error + expr" where
  "trace_term n indices pairing =
     bind (foldM (\<lambda>term p.
             bind (getitem indices (fst p)) (\<lambda>a.
             bind (getitem indices (snd p)) (\<lambda>b. Inr (Mul term (delta a b)))))
           pairing (Num 1)) (\<lambda>term.
     foldM (\<lambda>term pos.
             if pos \<notin> paired_positions pairing
             then bind (getitem indices pos) (\<lambda>a. Inr (Mul term (xa a)))
             else Inr term)
           [0..<nat n] term)"

definition trace_with_k_pairs :: "int \<Rightarrow> label list \<Rightarrow> nat \<Rightarrow> py_error + expr" where
  "trace_with_k_pairs n indices k =
     (if int k > n div 2 then Inr (Num 0)
      else
        bind (generate_k_pairings (nat n) k) (\<lambda>all_pairings.
        bind (foldM (\<lambda>total pairing.
                bind (trace_term n indices pairing) (\<lambda>term. Inr (Add total term)))
              all_pairings (Num 0)) (\<lambda>total.
        let coeff_arg = 2 * n - 2 * int k - 1;
            trace_coeff = (if coeff_arg > 0 then double_factorial coeff_arg else 1);
            sign = (- 1) ^ k
        in Inr (Mul (Mul (Num (sign * trace_coeff)) (Pwr ra0 (2 * int k))) total))))"

text \<open>\<open>for num_pairs in range(1, max_pairs + 1)\<close>\<close>

definition compute_all_traces :: "int \<Rightarrow> label list \<Rightarrow> py_error + expr" where
  "compute_all_traces n indices =
     foldM (\<lambda>total num_pairs.
             bind (trace_with_k_pairs n indices num_pairs) (\<lambda>pair_terms.
               Inr (Add total pair_terms)))
       [1..<nat (n div 2 + 1)] (Num 0)"

definition Q_n_general :: "int \<Rightarrow> label list \<Rightarrow> py_error + expr" where
  "Q_n_general n indices =
     (let main_coeff = double_factorial (2 * n - 1);
          product = fold (\<lambda>idx product. Mul product (xa idx)) indices (Num main_coeff)
      in bind (compute_all_traces n indices) (\<lambda>trace_terms.
           Inr (Add product trace_terms)))"

definition Q_0 :: expr where
  "Q_0 = Num 1"

definition Q_1 :: "label \<Rightarrow> expr" where
  "Q_1 i = xa i"

definition Q_2 :: "label \<Rightarrow> label \<Rightarrow> expr" where
  "Q_2 i j = (let term1 = Mul (Mul (Num 3) (xa i)) (xa j);
                  term2 = Mul (delta i j) (Pwr ra0 2)
              in Sub term1 term2)"

definition Q_3 :: "label \<Rightarrow> label \<Rightarrow> label \<Rightarrow> expr" where
  "Q_3 i j k =
     (let term1 = Mul (Mul (Mul (Num 15) (xa i)) (xa j)) (xa k);
          term2 = Mul (Mul (Num 3) (Pwr ra0 2))
                    (Add (Add (Mul (delta i j) (xa k)) (Mul (delta i k) (xa j)))
                         (Mul (delta j k) (xa i)))
      in Sub term1 term2)"

text \<open>\<open>Q_tensor\<close> with an explicit list of labels (the default \<open>indices=None\<close> only
  builds the labels \<open>i1 .. in\<close> before the same dispatch).\<close>

definition Q_tensor :: "int \<Rightarrow> label list \<Rightarrow> py_error + expr" where
  "Q_tensor n indices =
     (if n = 0 then Inr Q_0
      else if n = 1 then bind (getitem indices 0) (\<lambda>i. Inr (Q_1 i))
      else Q_n_general n indices)"

section \<open>Derivatives of 1/r (\<open>derivatives.py\<close>)\<close>

definition derivative_1_over_r_power :: "int \<Rightarrow> label \<Rightarrow> expr" where
  "derivative_1_over_r_power pwr index =
     (let coeff = Neg (Num pwr)
      in Div (Mul coeff (x index)) (Pwr r0 (pwr + 2)))"

definition derivative_1_over_r :: "label \<Rightarrow> expr" where
  "derivative_1_over_r index = derivative_1_over_r_power 1 index"

definition second_derivative_1_over_r :: "label \<Rightarrow> label \<Rightarrow> expr" where
  "second_derivative_1_over_r index1 index2 =
     (let numerator = Sub (Mul (Mul (Num 3) (x index1)) (x index2))
                          (Mul (delta index1 index2) (Pwr r0 2))
      in Div numerator (Pwr r0 5))"

definition derivative_trace_term :: "int \<Rightarrow> label list \<Rightarrow> pairing \<Rightarrow> py_error + expr" where
  "derivative_trace_term n indices pairing =
     bind (foldM (\<lambda>term p.
             bind (getitem indices (fst p)) (\<lambda>a.
             bind (getitem indices (snd p)) (\<lambda>b. Inr (Mul term (delta a b)))))
           pairing (Num 1)) (\<lambda>term.
     foldM (\<lambda>term pos.
             if pos \<notin> paired_positions pairing
             then bind (getitem indices pos) (\<lambda>a. Inr (Mul term (x a)))
             else Inr term)
           [0..<nat n] term)"

definition derivative_trace_with_k_pairs :: "int \<Rightarrow> label list \<Rightarrow> nat \<Rightarrow> py_error + expr" where
  "derivative_trace_with_k_pairs n indices k =
     (if int k > n div 2 then Inr (Num 0)
      else
        bind (generate_k_pairings (nat n) k) (\<lambda>all_pairings.
        bind (foldM (\<lambda>total pairing.
                bind (derivative_trace_term n indices pairing) (\<lambda>term. Inr (Add total term)))
              all_pairings (Num 0)) (\<lambda>total.
        let coeff_arg = 2 * n - 2 * int k - 1;
            trace_coeff = (if coeff_arg > 0 then double_factorial coeff_arg else 1)
        in Inr (Mul (Mul (Num trace_coeff) (Pwr r0 (2 * int k))) total))))"

definition compute_all_derivative_traces :: "int \<Rightarrow> label list \<Rightarrow> py_error + expr" where
  "compute_all_derivative_traces n indices =
     foldM (\<lambda>total num_pairs.
             bind (derivative_trace_with_k_pairs n indices num_pairs) (\<lambda>pair_terms.
               Inr (Add total pair_terms)))
       [1..<nat (n div 2 + 1)] (Num 0)"

definition build_derivative_numerator :: "int \<Rightarrow> label list \<Rightarrow> py_error + expr" where
  "build_derivative_numerator n indices =
     (let main_coeff = double_factorial (2 * n - 1);
          main_term = fold (\<lambda>idx main_term. Mul main_term (x idx)) indices (Num main_coeff)
      in bind (compute_all_derivative_traces n indices) (\<lambda>trace_terms.
           Inr (Sub main_term trace_terms)))"

text \<open>\<open>(-1) ** n\<close> is an integer for \<open>n \<ge> 0\<close>, the only orders at which the general
  path is meant to be used; for \<open>n < 0\<close> Python yields the float of the same value.\<close>

definition recursive_derivative :: "int \<Rightarrow> label list \<Rightarrow> py_error + expr" where
  "recursive_derivative n indices =
     bind (build_derivative_numerator n indices) (\<lambda>numerator.
       let pwr = 2 * n + 1;
           sign = (- 1) ^ nat \<bar>n\<bar>
       in Inr (Div (Mul (Num sign) numerator) (Pwr r0 pwr)))"

definition nth_derivative_1_over_r :: "int \<Rightarrow> label list \<Rightarrow> py_error + expr" where
  "nth_derivative_1_over_r n indices =
     (if n = 0 then Inr (Div (Num 1) r0)
      else if n = 1 then bind (getitem indices 0) (\<lambda>i. Inr (derivative_1_over_r i))
      else if n = 2 then
        bind (getitem indices 0) (\<lambda>i.
        bind (getitem indices 1) (\<lambda>j. Inr (second_derivative_1_over_r i j)))
      else recursive_derivative n indices)"

section \<open>The pairing sum in the specification's words\<close>

text \<open>The specification describes one algorithm for both builders: a main term
  \<open>doubleFactorial(2n-1) \<cdot> \<Prod> vec(idx)\<close> and, for every \<open>k\<close> from \<open>1\<close> to \<open>\<lfloor>n/2\<rfloor>\<close>, the
  term \<open>sign(k) \<cdot> doubleFactorial(2n-2k-1) \<cdot> mag^(2k) \<cdot> \<Sum> over the pairings of
  generate_pairings(n,k)\<close> of the deltas of the pairs times \<open>vec\<close> at the positions
  that no pair covers.  \<open>vec\<close> is the vector symbol, \<open>mag\<close> the magnitude and \<open>sign_of\<close>
  the sign convention (\<open>(-1)^k\<close> for the moment tensor, constant \<open>1\<close> for the
  derivative numerator).\<close>

definition generate_pairings :: "nat \<Rightarrow> nat \<Rightarrow> pairing list" where
  "generate_pairings n k = (case generate_k_pairings n k of Inr ps \<Rightarrow> ps | Inl e \<Rightarrow> [])"

definition spec_pairing_product :: "(label \<Rightarrow> expr) \<Rightarrow> label list \<Rightarrow> nat \<Rightarrow> pairing \<Rightarrow> expr" where
  "spec_pairing_product vec indices n pairing =
     fold (\<lambda>pos t. Mul t (vec (indices ! pos)))
       (filter (\<lambda>pos. pos \<notin> set (positions pairing)) [0..<n])
       (fold (\<lambda>q t. Mul t (delta (indices ! fst q) (indices ! snd q))) pairing (Num 1))"

definition spec_pairing_sum :: "(label \<Rightarrow> expr) \<Rightarrow> label list \<Rightarrow> nat \<Rightarrow> pairing list \<Rightarrow> expr" where
  "spec_pairing_sum vec indices n pairings =
     fold (\<lambda>pairing total. Add total (spec_pairing_product vec indices n pairing)) pairings (Num 0)"

definition spec_trace_term ::
    "(label \<Rightarrow> expr) \<Rightarrow> expr \<Rightarrow> (nat \<Rightarrow> int) \<Rightarrow> nat \<Rightarrow> label list \<Rightarrow> nat \<Rightarrow> expr" where
  "spec_trace_term vec mag sign_of n indices k =
     Mul (Mul (Num (sign_of k * double_factorial (2 * int n - 2 * int k - 1))) (Pwr mag (2 * int k)))
         (spec_pairing_sum vec indices n (generate_pairings n k))"

definition spec_trace_sum ::
    "(label \<Rightarrow> expr) \<Rightarrow> expr \<Rightarrow> (nat \<Rightarrow> int) \<Rightarrow> nat \<Rightarrow> label list \<Rightarrow> expr" where
  "spec_trace_sum vec mag sign_of n indices =
     fold (\<lambda>k total. Add total (spec_trace_term vec mag sign_of n indices k))
       [1..<n div 2 + 1] (Num 0)"

definition spec_main_term :: "(label \<Rightarrow> expr) \<Rightarrow> nat \<Rightarrow> label list \<Rightarrow> expr" where
  "spec_main_term vec n indices =
     fold (\<lambda>idx t. Mul t (vec idx)) indices (Num (double_factorial (2 * int n - 1)))"

section \<open>Canonical form of expressions\<close>

text \<open>Modelled from the spec: the canonical normal form of the expression substrate,
  an external library whose code is not part of the repository.  Equality of
  expressions is structural up to this form: sums and products are flat and
  commutative, equal terms of a sum are collected with their numeric coefficients,
  equal factors of a product are collected with their exponents, and no product is
  distributed over a sum.  Collecting is the same operation for both: a multiset of
  (key, weight) entries is merged so that every key occurs once, with the sum of
  its weights, and keys of weight zero disappear.\<close>

definition weight :: "('a \<times> 'c::comm_monoid_add) multiset \<Rightarrow> 'a \<Rightarrow> 'c" where
  "weight T b = sum_mset (image_mset (\<lambda>p. if fst p = b then snd p else 0) T)"

definition merge :: "('a \<times> 'c::comm_monoid_add) multiset \<Rightarrow> ('a \<times> 'c) multiset" where
  "merge T = image_mset (\<lambda>b. (b, weight T b)) (mset_set {b \<in> fst ` set_mset T. weight T b \<noteq> 0})"

text \<open>Merging one more entry into a merged multiset; \<open>merge\<close> of an explicit multiset
  is computed entry by entry with it.\<close>

definition ins :: "'a \<Rightarrow> 'c \<Rightarrow> ('a \<times> 'c::comm_monoid_add) multiset \<Rightarrow> ('a \<times> 'c) multiset" where
  "ins b c S =
     (let c' = weight S b + c; R = filter_mset (\<lambda>p. fst p \<noteq> b) S
      in if c' = 0 then R else add_mset (b, c') R)"

text \<open>A canonical expression is a sum of terms; a term is a rational coefficient and
  a product of powers of bases; a base is a symbol, a symbol applied to labels, or
  a sum of at least two terms that stands as a factor.\<close>

datatype base =
    Var string
  | App string "label list"
  | Paren "((base \<times> int) multiset \<times> rat) multiset"

type_synonym mono = "(base \<times> int) multiset"
type_synonym nf = "(mono \<times> rat) multiset"

definition nf_num :: "rat \<Rightarrow> nf" where
  "nf_num c = (if c = 0 then {#} else {#({#}, c)#})"

definition nf_base :: "base \<Rightarrow> nf" where
  "nf_base b = {#({#(b, 1)#}, 1)#}"

text \<open>An expression seen as one term: the zero sum has coefficient \<open>0\<close>, a sum of one
  term is that term, a longer sum is a single factor.\<close>

definition as_term :: "nf \<Rightarrow> rat \<times> mono" where
  "as_term p =
     (if p = {#} then (0, {#})
      else if size p = 1 then (snd (the_elem (set_mset p)), fst (the_elem (set_mset p)))
      else (1, {#(Paren p, 1)#}))"

definition mk_term :: "rat \<Rightarrow> mono \<Rightarrow> nf" where
  "mk_term c m =
     (if c = 0 then {#}
      else if c = 1 \<and> size m = 1 then
        (case the_elem (set_mset m) of
           (Paren s, e) \<Rightarrow> if e = 1 \<and> 2 \<le> size s then s else {#(m, c)#}
         | _ \<Rightarrow> {#(m, c)#})
      else {#(m, c)#})"

text \<open>Sum and product of canonical expressions.  (A sum that stands as a factor and
  whose collected coefficient becomes exactly one is not spliced into the
  surrounding sum; the builders never produce that case.)\<close>

definition nf_add :: "nf \<Rightarrow> nf \<Rightarrow> nf" where
  "nf_add p q = merge (p + q)"

definition nf_mul :: "nf \<Rightarrow> nf \<Rightarrow> nf" where
  "nf_mul p q =
     (let (c1, m1) = as_term p; (c2, m2) = as_term q
      in mk_term (c1 * c2) (merge (m1 + m2)))"

text \<open>Integer powers.  A power of the zero expression with a negative exponent does
  not occur in the builders (they raise only the magnitudes to powers).\<close>

definition nf_pow :: "nf \<Rightarrow> int \<Rightarrow> nf" where
  "nf_pow p k =
     (let (c, m) = as_term p
      in mk_term (c powi k) (merge (image_mset (\<lambda>be. (fst be, snd be * k)) m)))"

text \<open>The canonical form of the tree that a builder wrote.\<close>

primrec canon :: "expr \<Rightarrow> nf" where
  "canon (Num c) = nf_num (of_int c)"
| "canon (Sym s) = nf_base (Var s)"
| "canon (Fn f args) = nf_base (App f args)"
| "canon (Add a b) = nf_add (canon a) (canon b)"
| "canon (Sub a b) = nf_add (canon a) (nf_mul (nf_num (- 1)) (canon b))"
| "canon (Mul a b) = nf_mul (canon a) (canon b)"
| "canon (Div a b) = nf_mul (canon a) (nf_pow (canon b) (- 1))"
| "canon (Pwr a k) = nf_pow (canon a) k"
| "canon (Neg a) = nf_mul (nf_num (- 1)) (canon a)"

section \<open>Contraction engine (\<open>contraction.py\<close>)\<close>

text \<open>Modelled from the spec: the substrate's pattern substitution
  \<open>Expression.replace(pattern, replacement)\<close>, which is not part of the repository.
  It returns the expression with all non-overlapping matches of the pattern replaced,
  in one pass over the whole expression, and the result is again canonical.  A
  product pattern matches factors of one product; a factor with an exponent other
  than the pattern's is not matched.

  A rule gives, for the factors of one product, the factors it consumes and the
  expressions that replace them; an atom rule rewrites single applied symbols
  wherever they stand.  The other factors are rewritten inside and the product and
  the sums are rebuilt canonically.\<close>

definition nf_sum :: "nf multiset \<Rightarrow> nf" where
  "nf_sum M = merge (\<Sum>\<^sub># M)"

definition nf_prod :: "nf multiset \<Rightarrow> nf" where
  "nf_prod M =
     mk_term (prod_mset (image_mset (\<lambda>p. fst (as_term p)) M))
             (merge (\<Sum>\<^sub># (image_mset (\<lambda>p. snd (as_term p)) M)))"

type_synonym rule = "mono \<Rightarrow> mono \<times> nf multiset"

definition rewrite_term :: "rule \<Rightarrow> ((base \<times> nf) \<times> int) multiset \<times> rat \<Rightarrow> nf" where
  "rewrite_term rule t =
     (let m = image_mset (\<lambda>be. (fst (fst be), snd be)) (fst t);
          matched = fst (rule m);
          rest = filter_mset (\<lambda>be. (fst (fst be), snd be) \<notin># matched) (fst t)
      in nf_mul (nf_num (snd t))
           (nf_prod (snd (rule m) + image_mset (\<lambda>be. nf_pow (snd (fst be)) (snd be)) rest)))"

definition rewrite_sum :: "rule \<Rightarrow> (((base \<times> nf) \<times> int) multiset \<times> rat) multiset \<Rightarrow> nf" where
  "rewrite_sum rule s = nf_sum (image_mset (rewrite_term rule) s)"

primrec rewrite_base :: "rule \<Rightarrow> (base \<Rightarrow> nf) \<Rightarrow> base \<Rightarrow> nf" where
  "rewrite_base rule atom (Var s) = atom (Var s)"
| "rewrite_base rule atom (App f args) = atom (App f args)"
| "rewrite_base rule atom (Paren s) =
     rewrite_sum rule
       (image_mset (map_prod (image_mset (map_prod (\<lambda>b. (b, rewrite_base rule atom b)) id)) id) s)"

definition replace :: "rule \<Rightarrow> (base \<Rightarrow> nf) \<Rightarrow> nf \<Rightarrow> nf" where
  "replace rule atom p =
     rewrite_sum rule
       (image_mset (map_prod (image_mset (map_prod (\<lambda>b. (b, rewrite_base rule atom b)) id)) id) p)"

text \<open>The pattern \<open>f(i_) * f(i_)\<close>, canonically \<open>f(i_)^2\<close>.\<close>

definition is_app1 :: "string \<Rightarrow> base \<Rightarrow> bool" where
  "is_app1 f b = (case b of App g args \<Rightarrow> g = f \<and> length args = 1 | _ \<Rightarrow> False)"

definition square_rule :: "string \<Rightarrow> nf \<Rightarrow> rule" where
  "square_rule f replacement m =
     (let matched = filter_mset (\<lambda>be. is_app1 f (fst be) \<and> snd be = 2) m
      in (matched, image_mset (\<lambda>be. replacement) matched))"

text \<open>The pattern \<open>f(i_) * g(i_)\<close> for two different symbols.\<close>

definition pair_partner :: "string \<Rightarrow> string \<Rightarrow> mono \<Rightarrow> base \<times> int \<Rightarrow> bool" where
  "pair_partner f g m be =
     (case fst be of
        App h args \<Rightarrow> h = f \<and> length args = 1 \<and> snd be = 1 \<and> (App g args, 1) \<in># m
      | _ \<Rightarrow> False)"

definition pair_rule :: "string \<Rightarrow> string \<Rightarrow> nf \<Rightarrow> rule" where
  "pair_rule f g replacement m =
     (let matched_f = filter_mset (pair_partner f g m) m;
          matched_g = filter_mset (pair_partner g f m) m
      in (matched_f + matched_g, image_mset (\<lambda>be. replacement) matched_f))"

text \<open>The pattern \<open>delta(i_, j_) * v(j_)\<close> with replacement \<open>v(i_)\<close>.  Following the
  specification's words, every non-overlapping match in a product is replaced in one
  pass.  When several deltas share the second label, only one of them can take the
  factor \<open>v(j)\<close>, and the specification does not say which: taking the delta with the
  least first label is a choice of this model.  The results below are stated on
  products where no vector's label is the second label of two deltas, so none of
  them depends on that choice.\<close>

definition delta_firsts :: "mono \<Rightarrow> label \<Rightarrow> label set" where
  "delta_firsts m l =
     set_mset (image_mset (\<lambda>be. case fst be of App h args \<Rightarrow> hd args | _ \<Rightarrow> l)
       (filter_mset (\<lambda>be. snd be = 1 \<and>
          (case fst be of App h args \<Rightarrow> h = ''delta'' \<and> length args = 2 \<and> args ! 1 = l
           | _ \<Rightarrow> False)) m))"

definition delta_partner :: "string \<Rightarrow> mono \<Rightarrow> base \<times> int \<Rightarrow> bool" where
  "delta_partner v m be =
     (case fst be of
        App h args \<Rightarrow> h = v \<and> length args = 1 \<and> snd be = 1 \<and> delta_firsts m (hd args) \<noteq> {}
      | _ \<Rightarrow> False)"

definition label_of :: "base \<times> int \<Rightarrow> label" where
  "label_of be = (case fst be of App h args \<Rightarrow> hd args | _ \<Rightarrow> [])"

definition delta_rule :: "string \<Rightarrow> rule" where
  "delta_rule v m =
     (let matched_v = filter_mset (delta_partner v m) m;
          matched_d = image_mset (\<lambda>be.
              (App ''delta'' [Min (delta_firsts m (label_of be)), label_of be], 1)) matched_v
      in (matched_v + matched_d,
          image_mset (\<lambda>be. nf_base (App v [Min (delta_firsts m (label_of be))])) matched_v))"

definition no_rule :: rule where
  "no_rule m = ({#}, {#})"

text \<open>The pattern \<open>delta(i_, i_)\<close>, a single applied symbol.\<close>

definition delta_trace :: "base \<Rightarrow> nf" where
  "delta_trace b =
     (case b of
        App h args \<Rightarrow>
          if h = ''delta'' \<and> length args = 2 \<and> args ! 0 = args ! 1 then nf_num 3
          else nf_base b
      | _ \<Rightarrow> nf_base b)"

definition contract_xa_xa :: "nf \<Rightarrow> nf" where
  "contract_xa_xa e = replace (square_rule ''xa'' (canon (Pwr ra0 2))) nf_base e"

definition contract_xa_n :: "nf \<Rightarrow> nf" where
  "contract_xa_n e =
     (let result = replace (pair_rule ''xa'' ''n'' (canon dot_xa_n)) nf_base e
      in replace (pair_rule ''n'' ''xa'' (canon dot_xa_n)) nf_base result)"

definition contract_x_x :: "nf \<Rightarrow> nf" where
  "contract_x_x e = replace (square_rule ''x'' (canon (Pwr r0 2))) nf_base e"

definition contract_x_n :: "nf \<Rightarrow> nf" where
  "contract_x_n e =
     (let result = replace (pair_rule ''x'' ''n'' (canon r0)) nf_base e
      in replace (pair_rule ''n'' ''x'' (canon r0)) nf_base result)"

definition contract_n_n :: "nf \<Rightarrow> nf" where
  "contract_n_n e = replace (square_rule ''n'' (canon (Num 1))) nf_base e"

definition contract_delta :: "nf \<Rightarrow> nf" where
  "contract_delta e =
     (let result = replace (delta_rule ''xa'') nf_base e;
          result = replace (delta_rule ''xa'') nf_base result;
          result = replace (delta_rule ''n'') nf_base result;
          result = replace (delta_rule ''n'') nf_base result
      in replace no_rule delta_trace result)"

definition contract_indices :: "nf \<Rightarrow> nf" where
  "contract_indices e =
     (let result = contract_xa_xa e;
          result = contract_xa_n result;
          result = contract_x_x result;
          result = contract_x_n result;
          result = contract_n_n result
      in contract_delta result)"

text \<open>The value of a canonical expression when every symbol and every applied
  symbol is given a rational value.  Two expressions with different values under
  some assignment are different under every sound notion of equality.\<close>

type_synonym assignment = "string \<Rightarrow> label list \<Rightarrow> rat"

definition term_val :: "(rat \<times> int) multiset \<times> rat \<Rightarrow> rat" where
  "term_val t = snd t * prod_mset (image_mset (\<lambda>ve. fst ve powi snd ve) (fst t))"

primrec base_val :: "assignment \<Rightarrow> base \<Rightarrow> rat" where
  "base_val \<rho> (Var s) = \<rho> s []"
| "base_val \<rho> (App f args) = \<rho> f args"
| "base_val \<rho> (Paren s) =
     sum_mset (image_mset term_val
       (image_mset (map_prod (image_mset (map_prod (base_val \<rho>) id)) id) s))"

definition nf_val :: "assignment \<Rightarrow> nf \<Rightarrow> rat" where
  "nf_val \<rho> p =
     sum_mset (image_mset term_val
       (image_mset (map_prod (image_mset (map_prod (base_val \<rho>) id)) id) p))"

text \<open>Treating \<open>delta\<close> as symmetric: the two labels of every \<open>delta\<close> are put in
  order before the canonical form is taken.\<close>

primrec sym_delta :: "expr \<Rightarrow> expr" where
  "sym_delta (Num c) = Num c"
| "sym_delta (Sym s) = Sym s"
| "sym_delta (Fn f args) = (if f = ''delta'' then Fn f (sort args) else Fn f args)"
| "sym_delta (Add a b) = Add (sym_delta a) (sym_delta b)"
| "sym_delta (Sub a b) = Sub (sym_delta a) (sym_delta b)"
| "sym_delta (Mul a b) = Mul (sym_delta a) (sym_delta b)"
| "sym_delta (Div a b) = Div (sym_delta a) (sym_delta b)"
| "sym_delta (Pwr a k) = Pwr (sym_delta a) k"
| "sym_delta (Neg a) = Neg (sym_delta a)"

text \<open>The factors of one pairing's term, as canonical atoms: one symmetric delta for
  every pair of the matching and one vector for every position outside it.\<close>

definition delta_atom :: "label list \<Rightarrow> nat set \<Rightarrow> nf" where
  "delta_atom indices e =
     nf_base (App ''delta'' (sort (map ((!) indices) (sorted_list_of_set e))))"

definition matching_factors :: "label list \<Rightarrow> nat \<Rightarrow> nat set set \<Rightarrow> nf multiset" where
  "matching_factors indices n M =
     image_mset (delta_atom indices) (mset_set M)
       + image_mset (\<lambda>pos. nf_base (App ''xa'' [indices ! pos])) (mset_set ({0..<n} - \<Union>M))"

text \<open>Canonical expressions.  The substrate only ever holds expressions in canonical
  form: in every sum equal terms are collected and no coefficient is zero, in every
  product equal factors are collected and no exponent is zero, a sum that stands
  as a factor has at least two terms, and a sum with coefficient one is never a
  term of another sum.\<close>

definition strip :: "((base \<times> 'x) \<times> int) multiset \<Rightarrow> mono" where
  "strip m = image_mset (\<lambda>be. (fst (fst be), snd be)) m"

definition term_ok :: "((base \<times> bool) \<times> int) multiset \<times> rat \<Rightarrow> bool" where
  "term_ok t \<longleftrightarrow>
     snd t \<noteq> 0 \<and> merge (strip (fst t)) = strip (fst t) \<and> (\<forall>be\<in>#fst t. snd (fst be)) \<and>
     mk_term (snd t) (strip (fst t)) = {#(strip (fst t), snd t)#}"

definition sum_ok :: "(((base \<times> bool) \<times> int) multiset \<times> rat) multiset \<Rightarrow> bool" where
  "sum_ok s \<longleftrightarrow>
     merge (image_mset (map_prod strip id) s) = image_mset (map_prod strip id) s \<and>
     (\<forall>t\<in>#s. term_ok t)"

primrec good :: "base \<Rightarrow> bool" where
  "good (Var s) = True"
| "good (App f args) = True"
| "good (Paren s) =
     (2 \<le> size s \<and>
      sum_ok (image_mset (map_prod (image_mset (map_prod (\<lambda>b. (b, good b)) id)) id) s))"

definition canonical_expr :: "nf \<Rightarrow> bool" where
  "canonical_expr p =
     sum_ok (image_mset (map_prod (image_mset (map_prod (\<lambda>b. (b, good b)) id)) id) p)"

text \<open>An expression contains no match of a rule when the rule consumes no factor of
  any product in it, at any depth, and the atom rule leaves every applied symbol
  as it is.\<close>

definition term_quiet :: "rule \<Rightarrow> ((base \<times> bool) \<times> int) multiset \<times> rat \<Rightarrow> bool" where
  "term_quiet r t \<longleftrightarrow> fst (r (strip (fst t))) = {#} \<and> (\<forall>be\<in>#fst t. snd (fst be))"

primrec quiet_base :: "rule \<Rightarrow> (base \<Rightarrow> nf) \<Rightarrow> base \<Rightarrow> bool" where
  "quiet_base r a (Var s) = (a (Var s) = nf_base (Var s))"
| "quiet_base r a (App f args) = (a (App f args) = nf_base (App f args))"
| "quiet_base r a (Paren s) =
     (\<forall>t\<in>#image_mset (map_prod (image_mset (map_prod (\<lambda>b. (b, quiet_base r a b)) id)) id) s.
        term_quiet r t)"

definition quiet :: "rule \<Rightarrow> (base \<Rightarrow> nf) \<Rightarrow> nf \<Rightarrow> bool" where
  "quiet r a p =
     (\<forall>t\<in>#image_mset (map_prod (image_mset (map_prod (\<lambda>b. (b, quiet_base r a b)) id)) id) p.
        term_quiet r t)"

text \<open>None of the patterns of \<open>contract_indices\<close> occurs.\<close>

definition pattern_free :: "nf \<Rightarrow> bool" where
  "pattern_free p \<longleftrightarrow>
     quiet (square_rule ''xa'' (canon (Pwr ra0 2))) nf_base p \<and>
     quiet (pair_rule ''xa'' ''n'' (canon dot_xa_n)) nf_base p \<and>
     quiet (pair_rule ''n'' ''xa'' (canon dot_xa_n)) nf_base p \<and>
     quiet (square_rule ''x'' (canon (Pwr r0 2))) nf_base p \<and>
     quiet (pair_rule ''x'' ''n'' (canon r0)) nf_base p \<and>
     quiet (pair_rule ''n'' ''x'' (canon r0)) nf_base p \<and>
     quiet (square_rule ''n'' (canon (Num 1))) nf_base p \<and>
     quiet (delta_rule ''xa'') nf_base p \<and>
     quiet (delta_rule ''n'') nf_base p \<and>
     quiet no_rule delta_trace p"

text \<open>A base read as an expression of its own.\<close>

definition base_nf :: "base \<Rightarrow> nf" where
  "base_nf b = (case b of Paren s \<Rightarrow> s | _ \<Rightarrow> nf_base b)"

section \<open>Basic facts about the generator's building blocks\<close>

lemma set_all_pairs: "set (all_pairs n) = {(i, j). i < j \<and> j < n}"
  by (force simp: all_pairs_def)

lemma distinct_all_pairs: "distinct (all_pairs n)"
  unfolding all_pairs_def
proof (rule distinct_concat)
  show "distinct (map (\<lambda>i. map (Pair i) [i + 1..<n]) [0..<n])"
  proof (simp add: distinct_map, rule inj_onI)
    fix x y assume "x \<in> {0..<n}" "y \<in> {0..<n}"
      and "map (Pair x) [Suc x..<n] = map (Pair y) [Suc y..<n]"
    then have "length (map (Pair x) [Suc x..<n]) = length (map (Pair y) [Suc y..<n])"
      by simp
    with \<open>x \<in> {0..<n}\<close> \<open>y \<in> {0..<n}\<close> show "x = y" by simp
  qed
qed (auto simp: distinct_map inj_on_def)

lemma all_pairs_small: "n \<le> 1 \<Longrightarrow> all_pairs n = []"
proof -
  assume "n \<le> 1"
  then have "set (all_pairs n) = {}" by (auto simp: set_all_pairs)
  then show ?thesis by simp
qed

lemma set_remaining: "set (remaining n i j) = {0..<n} - {i, j}"
  by (auto simp: remaining_def)

lemma distinct_remaining: "distinct (remaining n i j)"
  by (simp add: remaining_def)

lemma sorted_remaining: "sorted (remaining n i j)"
  by (simp add: remaining_def sorted_wrt_filter)

lemma length_remaining:
  assumes "i < j" "j < n"
  shows "length (remaining n i j) = n - 2"
proof -
  have "length (remaining n i j) = card (set (remaining n i j))"
    by (simp add: distinct_card distinct_remaining)
  also have "\<dots> = card ({0..<n} - {i, j})" by (simp add: set_remaining)
  also have "\<dots> = card {0..<n} - card {i, j}"
    using assms by (intro card_Diff_subset) auto
  also have "\<dots> = n - 2" using assms by simp
  finally show ?thesis .
qed

lemma mapM_Inr: "(\<And>x. x \<in> set xs \<Longrightarrow> f x = Inr (g x)) \<Longrightarrow> mapM f xs = Inr (map g xs)"
  by (induction xs) simp_all

lemma generate_too_many:
  assumes "2 * k > n"
  shows "generate_k_pairings n k = Inr []"
proof (cases k)
  case 0
  with assms show ?thesis by simp
next
  case (Suc k')
  show ?thesis
  proof (cases k')
    case 0
    with Suc assms have "n \<le> 1" by simp
    with Suc 0 show ?thesis by (simp add: all_pairs_small)
  next
    case (Suc k'')
    have chunk: "(let rem = remaining n (fst p) (snd p) in
             if length rem \<ge> 2 * Suc k'' then
               bind (generate_k_pairings (length rem) (Suc k'')) (\<lambda>sub_pairings.
                 mapM (\<lambda>sub_pairing.
                   bind (mapM (map_back rem) sub_pairing) (\<lambda>mapped_pairing.
                     Inr (p # mapped_pairing))) sub_pairings)
             else Inr []) = Inr ((\<lambda>_. []) p)" if "p \<in> set (all_pairs n)" for p
    proof -
      from that have "fst p < snd p" "snd p < n" by (auto simp: set_all_pairs)
      then have "length (remaining n (fst p) (snd p)) = n - 2" by (rule length_remaining)
      moreover from assms \<open>k = Suc k'\<close> \<open>k' = Suc k''\<close> have "\<not> 2 * Suc k'' \<le> n - 2"
        by simp
      ultimately show ?thesis by (simp add: Let_def)
    qed
    have "generate_k_pairings n (Suc (Suc k'')) =
        Inr (unique_from {} (concat (map (\<lambda>_. []) (all_pairs n))))"
      by (simp only: generate_k_pairings.simps mapM_Inr [of "all_pairs n", OF chunk] bind_Inr)
    also have "concat (map (\<lambda>_. []) (all_pairs n)) = ([] :: pairing list)"
      by (induction "all_pairs n") simp_all
    finally show ?thesis unfolding \<open>k = Suc k'\<close> \<open>k' = Suc k''\<close> by simp
  qed
qed

section \<open>De-duplication\<close>

lemma set_unique_from: "set (unique_from S xs) \<subseteq> set xs"
  by (induction xs arbitrary: S) auto

lemma normalized_unique_from:
  "normalized ` set (unique_from S xs) = normalized ` set xs - S"
  by (induction xs arbitrary: S) auto

lemma distinct_unique_from: "distinct (map normalized (unique_from S xs))"
proof (induction xs arbitrary: S)
  case Nil
  then show ?case by simp
next
  case (Cons p ps)
  have "normalized p \<notin> normalized ` set (unique_from (insert (normalized p) S) ps)"
    by (simp add: normalized_unique_from)
  with Cons show ?case by simp
qed

lemma unique_from_key:
  assumes "\<And>p q. p \<in> set xs \<Longrightarrow> q \<in> set xs \<Longrightarrow> normalized p = normalized q \<longleftrightarrow> f p = f q"
  shows "distinct (map f (unique_from {} xs))"
    and "f ` set (unique_from {} xs) = f ` set xs"
proof -
  let ?ys = "unique_from {} xs"
  have sub: "set ?ys \<subseteq> set xs" by (rule set_unique_from)
  have d: "distinct (map normalized ?ys)" by (rule distinct_unique_from)
  then have "distinct ?ys" and inj: "inj_on normalized (set ?ys)"
    by (auto simp: distinct_map)
  moreover have "inj_on f (set ?ys)"
  proof (rule inj_onI)
    fix p q assume "p \<in> set ?ys" "q \<in> set ?ys" "f p = f q"
    with sub assms have "normalized p = normalized q" by blast
    with inj \<open>p \<in> set ?ys\<close> \<open>q \<in> set ?ys\<close> show "p = q" by (auto dest: inj_onD)
  qed
  ultimately show "distinct (map f ?ys)" by (simp add: distinct_map)
  show "f ` set ?ys = f ` set xs"
  proof
    show "f ` set ?ys \<subseteq> f ` set xs" using sub by blast
    show "f ` set xs \<subseteq> f ` set ?ys"
    proof
      fix v assume "v \<in> f ` set xs"
      then obtain p where p: "p \<in> set xs" "v = f p" by blast
      have "normalized p \<in> normalized ` set ?ys"
        using p by (simp add: normalized_unique_from)
      then obtain q where q: "q \<in> set ?ys" "normalized p = normalized q" by blast
      with sub p assms have "f p = f q" by blast
      with p q show "v \<in> f ` set ?ys" by blast
    qed
  qed
qed

section \<open>Valid pairings\<close>

lemma valid_pairing_Nil [simp]: "valid_pairing n []"
  by (simp add: valid_pairing_def positions_def)

lemma positions_Cons: "positions (q # p) = fst q # snd q # positions p"
  by (simp add: positions_def)

lemma set_positions: "set (positions p) = \<Union> (pair_set p)"
  by (induction p) (auto simp: positions_def pair_set_def unordered_def)

lemma length_positions: "length (positions p) = 2 * length p"
  by (induction p) (auto simp: positions_def)

lemma valid_pairing_distinct:
  assumes "valid_pairing n p"
  shows "distinct p"
  using assms
proof (induction p)
  case Nil
  then show ?case by simp
next
  case (Cons q p)
  from Cons.prems have v: "valid_pairing n p"
    by (auto simp: valid_pairing_def positions_Cons)
  from Cons.prems have "fst q \<notin> set (positions p)"
    by (auto simp: valid_pairing_def positions_Cons)
  then have "q \<notin> set p"
    by (auto simp: set_positions pair_set_def unordered_def)
  with Cons.IH [OF v] show ?case by simp
qed

lemma valid_pairing_sorted_pairs:
  assumes "valid_pairing n p"
  shows "map sorted_pair p = p"
proof -
  have "\<And>q. q \<in> set p \<Longrightarrow> sorted_pair q = q"
    using assms by (auto simp: valid_pairing_def sorted_pair_def)
  then show ?thesis by (simp add: map_idI)
qed

lemma unordered_inj:
  assumes "fst q < snd q" "fst q' < snd q'" "unordered q = unordered q'"
  shows "q = q'"
proof -
  from assms have "{fst q, snd q} = {fst q', snd q'}" by (simp add: unordered_def)
  with assms(1,2) have "fst q = fst q' \<and> snd q = snd q'"
    by (metis doubleton_eq_iff less_irrefl less_asym)
  then show ?thesis by (simp add: prod_eq_iff)
qed

lemma normalized_eq_iff_pair_set:
  assumes "valid_pairing n p" "valid_pairing n q"
  shows "normalized p = normalized q \<longleftrightarrow> pair_set p = pair_set q"
proof -
  have np: "normalized p = sort p" and nq: "normalized q = sort q"
    using assms by (simp_all add: normalized_def valid_pairing_sorted_pairs)
  have dp: "distinct p" and dq: "distinct q"
    using assms by (auto dest: valid_pairing_distinct)
  have "sort p = sort q \<longleftrightarrow> mset p = mset q"
    by (metis mset_sort properties_for_sort sorted_sort)
  also have "\<dots> \<longleftrightarrow> set p = set q"
    using dp dq by (simp add: set_eq_iff_mset_eq_distinct)
  also have "\<dots> \<longleftrightarrow> pair_set p = pair_set q"
  proof
    assume "set p = set q" then show "pair_set p = pair_set q" by (simp add: pair_set_def)
  next
    assume eq: "pair_set p = pair_set q"
    have ordp: "\<And>a. a \<in> set p \<Longrightarrow> fst a < snd a" and ordq: "\<And>a. a \<in> set q \<Longrightarrow> fst a < snd a"
      using assms by (auto simp: valid_pairing_def)
    show "set p = set q"
    proof (intro equalityI subsetI)
      fix a assume a: "a \<in> set p"
      then have "unordered a \<in> pair_set q" using eq by (auto simp: pair_set_def)
      then obtain b where b: "b \<in> set q" "unordered a = unordered b" by (auto simp: pair_set_def)
      with unordered_inj [OF ordp [OF a] ordq [OF b(1)]] show "a \<in> set q" by simp
    next
      fix a assume a: "a \<in> set q"
      then have "unordered a \<in> pair_set p" using eq by (auto simp: pair_set_def)
      then obtain b where b: "b \<in> set p" "unordered a = unordered b" by (auto simp: pair_set_def)
      with unordered_inj [OF ordq [OF a] ordp [OF b(1)]] show "a \<in> set p" by simp
    qed
  qed
  finally show ?thesis by (simp add: np nq)
qed


section \<open>Sets of disjoint two-element sets\<close>


lemma matchings_0: "matchings A 0 = {{}}"
  by (auto simp: matchings_def)

lemma finite_matchings:
  assumes "finite A"
  shows "finite (matchings A k)"
proof -
  have "matchings A k \<subseteq> Pow (Pow A)" by (auto simp: matchings_def)
  with assms show ?thesis by (meson finite_Pow_iff finite_subset)
qed

lemma matchings_image_subset:
  assumes "inj_on f A" "M \<in> matchings A k"
  shows "(`) f ` M \<in> matchings (f ` A) k"
proof -
  from assms(2) have sub: "\<And>e. e \<in> M \<Longrightarrow> e \<subseteq> A \<and> card e = 2"
    and fin: "finite M" and card: "card M = k" and dis: "disjoint M"
    by (auto simp: matchings_def)
  have U: "\<Union>M \<subseteq> A" using sub by blast
  have injU: "inj_on f (\<Union>M)" using assms(1) U by (rule inj_on_subset)
  have "card ((`) f ` M) = card M"
    by (intro card_image inj_on_image injU)
  moreover have "disjoint ((`) f ` M)" using injU dis by (rule disjoint_image)
  moreover have "\<And>e. e \<in> M \<Longrightarrow> f ` e \<subseteq> f ` A \<and> card (f ` e) = 2"
  proof -
    fix e assume "e \<in> M"
    with sub have e: "e \<subseteq> A" "card e = 2" by auto
    have "inj_on f e" using assms(1) e(1) by (rule inj_on_subset)
    then show "f ` e \<subseteq> f ` A \<and> card (f ` e) = 2" using e by (auto simp: card_image)
  qed
  ultimately show ?thesis using fin card by (auto simp: matchings_def)
qed

lemma matchings_image:
  assumes "inj_on f A"
  shows "(\<lambda>M. (`) f ` M) ` matchings A k = matchings (f ` A) k"
proof (intro equalityI subsetI)
  fix N assume "N \<in> (\<lambda>M. (`) f ` M) ` matchings A k"
  then show "N \<in> matchings (f ` A) k" using matchings_image_subset [OF assms] by blast
next
  fix N assume N: "N \<in> matchings (f ` A) k"
  let ?g = "the_inv_into A f"
  have g: "inj_on ?g (f ` A)" using assms by (rule inj_on_the_inv_into)
  have gA: "?g ` f ` A = A" using assms by (simp add: the_inv_into_onto)
  from matchings_image_subset [OF g N] gA have M: "(`) ?g ` N \<in> matchings A k" by simp
  have "\<And>e. e \<in> N \<Longrightarrow> f ` ?g ` e = e"
  proof -
    fix e assume "e \<in> N"
    with N have "e \<subseteq> f ` A" by (auto simp: matchings_def)
    then have "\<And>y. y \<in> e \<Longrightarrow> f (?g y) = y"
      using assms by (auto simp: f_the_inv_into_f)
    then show "f ` ?g ` e = e" by (auto simp: image_image)
  qed
  then have "(`) f ` (`) ?g ` N = N" by (auto simp: image_image)
  with M show "N \<in> (\<lambda>M. (`) f ` M) ` matchings A k" by (metis imageI)
qed

lemma matchings_image_inj:
  assumes "inj_on f A"
  shows "inj_on (\<lambda>M. (`) f ` M) (matchings A k)"
proof -
  have "inj_on ((`) f) (Pow A)" using assms by (simp add: inj_on_image)
  then have "inj_on ((`) ((`) f)) (Pow (Pow A))" by (simp add: inj_on_image)
  moreover have "matchings A k \<subseteq> Pow (Pow A)" by (auto simp: matchings_def)
  ultimately show ?thesis by (rule inj_on_subset)
qed

lemma matchings_insert_in:
  assumes "e \<subseteq> B" "card e = 2" "M \<in> matchings (B - e) k"
  shows "insert e M \<in> matchings B (Suc k)" "e \<notin> M"
proof -
  from assms(3) have sub: "\<And>d. d \<in> M \<Longrightarrow> d \<subseteq> B - e \<and> card d = 2"
    and fin: "finite M" and card: "card M = k" and dis: "disjoint M"
    by (auto simp: matchings_def)
  show notin: "e \<notin> M"
  proof
    assume "e \<in> M"
    with sub have "e \<subseteq> B - e" by blast
    then have "e = {}" by blast
    with assms(2) show False by simp
  qed
  have "disjoint (insert e M)"
    unfolding disjoint_def
  proof (intro ballI impI)
    fix a b assume "a \<in> insert e M" "b \<in> insert e M" "a \<noteq> b"
    then show "a \<inter> b = {}"
      using sub dis by (auto simp: disjoint_def) blast+
  qed
  then show "insert e M \<in> matchings B (Suc k)"
    using assms(1,2) sub fin card notin by (auto simp: matchings_def)
qed

lemma matchings_insert:
  assumes "e \<subseteq> B" "card e = 2"
  shows "insert e ` matchings (B - e) k = {M \<in> matchings B (Suc k). e \<in> M}"
proof (intro equalityI subsetI)
  fix N assume "N \<in> insert e ` matchings (B - e) k"
  then show "N \<in> {M \<in> matchings B (Suc k). e \<in> M}"
    using matchings_insert_in(1) [OF assms] by auto
next
  fix N assume "N \<in> {M \<in> matchings B (Suc k). e \<in> M}"
  then have N: "N \<in> matchings B (Suc k)" and e: "e \<in> N" by auto
  from N have sub: "\<And>d. d \<in> N \<Longrightarrow> d \<subseteq> B \<and> card d = 2"
    and fin: "finite N" and card: "card N = Suc k" and dis: "disjoint N"
    by (auto simp: matchings_def)
  have "\<And>d. d \<in> N - {e} \<Longrightarrow> d \<subseteq> B - e"
  proof -
    fix d assume d: "d \<in> N - {e}"
    then have "d \<inter> e = {}" using dis e by (auto simp: disjoint_def)
    with sub d show "d \<subseteq> B - e" by blast
  qed
  moreover have "disjoint (N - {e})" using dis by (auto simp: disjoint_def)
  moreover have "card (N - {e}) = k" using fin card e by simp
  ultimately have "N - {e} \<in> matchings (B - e) k"
    using sub fin by (auto simp: matchings_def)
  moreover have "insert e (N - {e}) = N" using e by blast
  ultimately show "N \<in> insert e ` matchings (B - e) k" by (metis imageI)
qed

lemma matchings_insert_inj:
  assumes "e \<subseteq> B" "card e = 2"
  shows "inj_on (insert e) (matchings (B - e) k)"
proof (rule inj_onI)
  fix M N assume "M \<in> matchings (B - e) k" "N \<in> matchings (B - e) k" "insert e M = insert e N"
  moreover from this have "e \<notin> M" "e \<notin> N" using matchings_insert_in(2) [OF assms] by blast+
  ultimately show "M = N" by (simp add: insert_ident)
qed

lemma matchings_Suc_cover:
  "matchings B (Suc k) = (\<Union>e\<in>{e. e \<subseteq> B \<and> card e = 2}. {M \<in> matchings B (Suc k). e \<in> M})"
proof (intro equalityI subsetI)
  fix M assume M: "M \<in> matchings B (Suc k)"
  then have "card M = Suc k" by (simp add: matchings_def)
  then have "M \<noteq> {}" by auto
  then obtain e where "e \<in> M" by blast
  moreover with M have "e \<subseteq> B \<and> card e = 2" by (auto simp: matchings_def)
  ultimately show "M \<in> (\<Union>e\<in>{e. e \<subseteq> B \<and> card e = 2}. {M \<in> matchings B (Suc k). e \<in> M})"
    using M by blast
next
  fix M assume "M \<in> (\<Union>e\<in>{e. e \<subseteq> B \<and> card e = 2}. {M \<in> matchings B (Suc k). e \<in> M})"
  then show "M \<in> matchings B (Suc k)" by (elim UN_E) simp
qed



lemma unordered_all_pairs: "unordered ` set (all_pairs n) = {e. e \<subseteq> {0..<n} \<and> card e = 2}"
proof (intro equalityI subsetI)
  fix e assume "e \<in> unordered ` set (all_pairs n)"
  then obtain i j where "i < j" "j < n" "e = {i, j}"
    by (auto simp: set_all_pairs unordered_def)
  then show "e \<in> {e. e \<subseteq> {0..<n} \<and> card e = 2}" by auto
next
  fix e assume "e \<in> {e. e \<subseteq> {0..<n} \<and> card e = 2}"
  then have sub: "e \<subseteq> {0..<n}" and "card e = 2" by auto
  then obtain a b where ab: "e = {a, b}" "a \<noteq> b" by (auto simp: card_2_iff)
  show "e \<in> unordered ` set (all_pairs n)"
  proof (cases "a < b")
    case True
    with ab sub have "(a, b) \<in> set (all_pairs n)" by (auto simp: set_all_pairs)
    moreover have "unordered (a, b) = e" using ab by (simp add: unordered_def)
    ultimately show ?thesis by (metis imageI)
  next
    case False
    with ab sub have "(b, a) \<in> set (all_pairs n)" by (auto simp: set_all_pairs)
    moreover have "unordered (b, a) = e" using ab by (auto simp: unordered_def)
    ultimately show ?thesis by (metis imageI)
  qed
qed

lemma disjoint_pair_set:
  assumes "distinct (positions p)"
  shows "disjoint (pair_set p) \<and> distinct p"
  using assms
proof (induction p)
  case Nil
  then show ?case by (simp add: pair_set_def)
next
  case (Cons q p)
  from Cons.prems have d: "distinct (positions p)"
    and notin: "fst q \<notin> set (positions p)" "snd q \<notin> set (positions p)"
    by (auto simp: positions_Cons)
  from notin have "unordered q \<inter> \<Union> (pair_set p) = {}"
    by (auto simp: set_positions unordered_def)
  then have *: "\<And>d. d \<in> pair_set p \<Longrightarrow> unordered q \<inter> d = {}" by blast
  have ps: "pair_set (q # p) = insert (unordered q) (pair_set p)" by (simp add: pair_set_def)
  have "disjoint (insert (unordered q) (pair_set p))"
    unfolding disjoint_def
  proof (intro ballI impI)
    fix a b assume "a \<in> insert (unordered q) (pair_set p)" "b \<in> insert (unordered q) (pair_set p)" "a \<noteq> b"
    then show "a \<inter> b = {}"
      using * Cons.IH [OF d] by (auto simp: disjoint_def) blast+
  qed
  moreover have "q \<notin> set p"
    using notin by (auto simp: set_positions pair_set_def unordered_def)
  ultimately show ?case using Cons.IH [OF d] ps by simp
qed

lemma pair_set_matching:
  assumes "valid_pairing n p"
  shows "pair_set p \<in> matchings {0..<n} (length p)"
proof -
  from assms have ord: "\<And>q. q \<in> set p \<Longrightarrow> fst q < snd q \<and> snd q < n"
    and d: "distinct (positions p)" by (auto simp: valid_pairing_def)
  from disjoint_pair_set [OF d] have dis: "disjoint (pair_set p)" and dp: "distinct p" by auto
  have "inj_on unordered (set p)"
  proof (rule inj_onI)
    fix a b assume "a \<in> set p" "b \<in> set p" "unordered a = unordered b"
    with ord [of a] ord [of b] show "a = b" by (intro unordered_inj) auto
  qed
  then have "card (pair_set p) = length p"
    using dp by (simp add: pair_set_def card_image distinct_card)
  moreover have "\<And>e. e \<in> pair_set p \<Longrightarrow> e \<subseteq> {0..<n} \<and> card e = 2"
    using ord by (fastforce simp: pair_set_def unordered_def)
  ultimately show ?thesis using dis by (auto simp: matchings_def pair_set_def)
qed

lemma remaining_nth:
  assumes "i < j" "j < n"
  shows "inj_on ((!) (remaining n i j)) {0..<n - 2}"
    and "(!) (remaining n i j) ` {0..<n - 2} = {0..<n} - {i, j}"
    and "\<And>a b. a < b \<Longrightarrow> b < n - 2 \<Longrightarrow> remaining n i j ! a < remaining n i j ! b"
proof -
  let ?r = "remaining n i j"
  have len: "length ?r = n - 2" using assms by (rule length_remaining)
  have d: "distinct ?r" by (rule distinct_remaining)
  show "inj_on ((!) ?r) {0..<n - 2}"
    using d len by (auto simp: inj_on_def nth_eq_iff_index_eq)
  have "(!) ?r ` {0..<n - 2} = set ?r"
    using len by (auto simp: set_conv_nth)
  then show "(!) ?r ` {0..<n - 2} = {0..<n} - {i, j}" by (simp add: set_remaining)
  fix a b assume ab: "a < b" "b < n - 2"
  have "sorted ?r" by (rule sorted_remaining)
  with ab len have "?r ! a \<le> ?r ! b" by (simp add: sorted_nth_mono)
  moreover have "?r ! a \<noteq> ?r ! b" using d ab len by (simp add: nth_eq_iff_index_eq)
  ultimately show "?r ! a < ?r ! b" by simp
qed

lemma mapM_map_back:
  assumes "valid_pairing (length rem) sub"
  shows "mapM (map_back rem) sub = Inr (map (mapped_pair rem) sub)"
proof (rule mapM_Inr)
  fix q assume "q \<in> set sub"
  with assms have "fst q < length rem" "snd q < length rem"
    by (auto simp: valid_pairing_def)
  then show "map_back rem q = Inr (mapped_pair rem q)"
    by (simp add: map_back_def getitem_def mapped_pair_def)
qed

lemma positions_mapped: "positions (map (mapped_pair rem) sub) = map ((!) rem) (positions sub)"
  by (induction sub) (simp_all add: positions_def mapped_pair_def)

lemma pair_set_mapped: "pair_set (map (mapped_pair rem) sub) = (`) ((!) rem) ` pair_set sub"
  by (induction sub) (auto simp: pair_set_def mapped_pair_def unordered_def)

lemma valid_first_pair_Cons:
  assumes ij: "i < j" "j < n" and sub: "valid_pairing (n - 2) sub"
  shows "valid_pairing n ((i, j) # map (mapped_pair (remaining n i j)) sub)"
proof -
  let ?r = "remaining n i j"
  note r = remaining_nth [OF ij]
  from sub have ord: "\<And>q. q \<in> set sub \<Longrightarrow> fst q < snd q \<and> snd q < n - 2"
    and d: "distinct (positions sub)" by (auto simp: valid_pairing_def)
  have pos: "set (positions sub) \<subseteq> {0..<n - 2}"
    using ord by (fastforce simp: set_positions pair_set_def unordered_def)
  have "\<And>q. q \<in> set sub \<Longrightarrow> fst (mapped_pair ?r q) < snd (mapped_pair ?r q) \<and> snd (mapped_pair ?r q) < n"
  proof -
    fix q assume q: "q \<in> set sub"
    from ord [OF q] have "?r ! fst q < ?r ! snd q" by (intro r(3)) auto
    moreover have "?r ! snd q \<in> (!) ?r ` {0..<n - 2}" using ord [OF q] by auto
    then have "?r ! snd q < n" unfolding r(2) by auto
    ultimately show "fst (mapped_pair ?r q) < snd (mapped_pair ?r q) \<and> snd (mapped_pair ?r q) < n"
      by (simp add: mapped_pair_def)
  qed
  moreover have "distinct (map ((!) ?r) (positions sub))"
    using d pos r(1) by (auto simp: distinct_map intro: inj_on_subset)
  moreover have "set (map ((!) ?r) (positions sub)) \<subseteq> {0..<n} - {i, j}"
    using pos r(2) by auto
  ultimately show ?thesis
    using ij by (auto simp: valid_pairing_def positions_Cons positions_mapped)
qed

lemma matchings_decompose:
  "(\<Union>fp\<in>set (all_pairs n).
      insert (unordered fp) `
        (\<lambda>M. (`) ((!) (remaining n (fst fp) (snd fp))) ` M) ` matchings {0..<n - 2} k)
   = matchings {0..<n} (Suc k)"
proof -
  have step: "insert (unordered fp) `
        (\<lambda>M. (`) ((!) (remaining n (fst fp) (snd fp))) ` M) ` matchings {0..<n - 2} k
      = {M \<in> matchings {0..<n} (Suc k). unordered fp \<in> M}"
    if "fp \<in> set (all_pairs n)" for fp
  proof -
    from that have ij: "fst fp < snd fp" "snd fp < n" by (auto simp: set_all_pairs)
    note r = remaining_nth [OF ij]
    have e: "unordered fp \<subseteq> {0..<n}" "card (unordered fp) = 2"
      using ij by (auto simp: unordered_def)
    have "(\<lambda>M. (`) ((!) (remaining n (fst fp) (snd fp))) ` M) ` matchings {0..<n - 2} k
        = matchings ({0..<n} - unordered fp) k"
      using matchings_image [OF r(1), of k] r(2) by (simp add: unordered_def)
    then show ?thesis using matchings_insert [OF e, of k] by simp
  qed
  have "(\<Union>fp\<in>set (all_pairs n).
      insert (unordered fp) `
        (\<lambda>M. (`) ((!) (remaining n (fst fp) (snd fp))) ` M) ` matchings {0..<n - 2} k)
    = (\<Union>fp\<in>set (all_pairs n). {M \<in> matchings {0..<n} (Suc k). unordered fp \<in> M})"
    using step by (intro SUP_cong refl) 
  also have "\<dots> = (\<Union>e\<in>unordered ` set (all_pairs n). {M \<in> matchings {0..<n} (Suc k). e \<in> M})"
    by (simp only: UN_simps image_image) 
  also have "\<dots> = matchings {0..<n} (Suc k)"
    unfolding unordered_all_pairs by (rule matchings_Suc_cover [symmetric])
  finally show ?thesis .
qed

lemma enumerates_Nil: "enumerates n 0 [[]]"
  by (simp add: enumerates_def matchings_0 pair_set_def)

lemma enumerates_single: "enumerates n (Suc 0) (map (\<lambda>p. [p]) (all_pairs n))"
proof -
  let ?ps = "map (\<lambda>p. [p]) (all_pairs n)"
  have v: "\<And>p. p \<in> set ?ps \<Longrightarrow> valid_pairing n p \<and> length p = Suc 0"
    by (auto simp: valid_pairing_def positions_def set_all_pairs)
  have ps: "map pair_set ?ps = map (\<lambda>p. {unordered p}) (all_pairs n)"
    by (simp add: pair_set_def)
  have "inj_on (\<lambda>p. {unordered p}) (set (all_pairs n))"
  proof (rule inj_onI)
    fix a b assume "a \<in> set (all_pairs n)" "b \<in> set (all_pairs n)" "{unordered a} = {unordered b}"
    then show "a = b" by (intro unordered_inj) (auto simp: set_all_pairs)
  qed
  then have d: "distinct (map pair_set ?ps)"
    unfolding ps by (simp add: distinct_map distinct_all_pairs)
  have "pair_set ` set ?ps = (\<lambda>p. {unordered p}) ` set (all_pairs n)"
    by (simp add: pair_set_def image_image)
  also have "\<dots> = (\<Union>fp\<in>set (all_pairs n). {{unordered fp}})"
    by blast
  also have "\<dots> = matchings {0..<n} (Suc 0)"
    using matchings_decompose [of n 0] by (simp add: matchings_0)
  finally show ?thesis using v d unfolding enumerates_def by blast
qed

lemma enumerates_step:
  assumes sub: "enumerates (n - 2) (Suc k) subs"
  defines "g \<equiv> \<lambda>fp. map (\<lambda>sub. fp # map (mapped_pair (remaining n (fst fp) (snd fp))) sub) subs"
  shows "enumerates n (Suc (Suc k)) (unique_from {} (concat (map g (all_pairs n))))"
proof -
  let ?raw = "concat (map g (all_pairs n))"
  let ?res = "unique_from {} ?raw"
  from sub have subv: "\<And>s. s \<in> set subs \<Longrightarrow> valid_pairing (n - 2) s \<and> length s = Suc k"
    and subm: "pair_set ` set subs = matchings {0..<n - 2} (Suc k)"
    by (auto simp: enumerates_def)
  have raw: "valid_pairing n p \<and> length p = Suc (Suc k)" if "p \<in> set ?raw" for p
  proof -
    from that obtain fp s where fp: "fp \<in> set (all_pairs n)" and s: "s \<in> set subs"
      and p: "p = fp # map (mapped_pair (remaining n (fst fp) (snd fp))) s"
      by (auto simp: g_def)
    from fp have ij: "fst fp < snd fp" "snd fp < n" by (auto simp: set_all_pairs)
    from valid_first_pair_Cons [OF ij] subv [OF s] show ?thesis by (simp add: p)
  qed
  have key: "normalized p = normalized q \<longleftrightarrow> pair_set p = pair_set q"
    if "p \<in> set ?raw" "q \<in> set ?raw" for p q
    using raw [OF that(1)] raw [OF that(2)] by (intro normalized_eq_iff_pair_set) auto
  from unique_from_key [of ?raw pair_set, OF key]
  have d: "distinct (map pair_set ?res)" and im: "pair_set ` set ?res = pair_set ` set ?raw"
    by auto
  have v: "\<And>p. p \<in> set ?res \<Longrightarrow> valid_pairing n p \<and> length p = Suc (Suc k)"
    using raw set_unique_from [of "{}" ?raw] by blast
  have "pair_set ` set ?raw =
      (\<Union>fp\<in>set (all_pairs n). pair_set ` set (g fp))"
    by auto
  also have "\<dots> = (\<Union>fp\<in>set (all_pairs n).
      insert (unordered fp) `
        (\<lambda>M. (`) ((!) (remaining n (fst fp) (snd fp))) ` M) ` (pair_set ` set subs))"
  proof (intro SUP_cong refl)
    fix fp
    have "pair_set (fp # map (mapped_pair r) s) = insert (unordered fp) ((`) ((!) r) ` pair_set s)"
      for r s
      using pair_set_mapped [of r s] by (simp add: pair_set_def)
    then show "pair_set ` set (g fp) = insert (unordered fp) `
        (\<lambda>M. (`) ((!) (remaining n (fst fp) (snd fp))) ` M) ` (pair_set ` set subs)"
      by (simp add: g_def image_image)
  qed
  also have "\<dots> = matchings {0..<n} (Suc (Suc k))"
    unfolding subm by (rule matchings_decompose)
  finally have "pair_set ` set ?res = matchings {0..<n} (Suc (Suc k))" using im by simp
  with v d show ?thesis unfolding enumerates_def by blast
qed

lemma generate_enumerates: "\<exists>ps. generate_k_pairings n k = Inr ps \<and> enumerates n k ps"
proof (induction k arbitrary: n)
  case 0
  show ?case by (simp add: enumerates_Nil)
next
  case (Suc k)
  show ?case
  proof (cases k)
    case 0
    then show ?thesis by (simp add: enumerates_single)
  next
    case (Suc k')
    from Suc.IH [of "n - 2"] \<open>k = Suc k'\<close> obtain subs
      where gen: "generate_k_pairings (n - 2) (Suc k') = Inr subs"
        and sub: "enumerates (n - 2) (Suc k') subs" by auto
    let ?g = "\<lambda>fp. map (\<lambda>sub. fp # map (mapped_pair (remaining n (fst fp) (snd fp))) sub) subs"
    have chunk: "(let rem = remaining n (fst fp) (snd fp) in
             if length rem \<ge> 2 * Suc k' then
               bind (generate_k_pairings (length rem) (Suc k')) (\<lambda>sub_pairings.
                 mapM (\<lambda>sub_pairing.
                   bind (mapM (map_back rem) sub_pairing) (\<lambda>mapped_pairing.
                     Inr (fp # mapped_pairing))) sub_pairings)
             else Inr []) = Inr (?g fp)" if "fp \<in> set (all_pairs n)" for fp
    proof -
      let ?rem = "remaining n (fst fp) (snd fp)"
      from that have "fst fp < snd fp" "snd fp < n" by (auto simp: set_all_pairs)
      then have len: "length ?rem = n - 2" by (rule length_remaining)
      show ?thesis
      proof (cases "2 * Suc k' \<le> n - 2")
        case True
        have "mapM (\<lambda>sub_pairing.
                   bind (mapM (map_back ?rem) sub_pairing) (\<lambda>mapped_pairing.
                     Inr (fp # mapped_pairing))) subs = Inr (?g fp)"
        proof (rule mapM_Inr)
          fix s assume "s \<in> set subs"
          with sub have "valid_pairing (length ?rem) s" by (simp add: enumerates_def len)
          then show "bind (mapM (map_back ?rem) s) (\<lambda>mapped_pairing. Inr (fp # mapped_pairing))
              = Inr (fp # map (mapped_pair ?rem) s)"
            by (simp add: mapM_map_back)
        qed
        with True len gen show ?thesis by (simp add: Let_def)
      next
        case False
        then have "generate_k_pairings (n - 2) (Suc k') = Inr []"
          by (intro generate_too_many) simp
        with gen have "subs = []" by simp
        with False len show ?thesis by (simp add: Let_def)
      qed
    qed
    have "generate_k_pairings n (Suc (Suc k')) =
        Inr (unique_from {} (concat (map ?g (all_pairs n))))"
      by (simp only: generate_k_pairings.simps mapM_Inr [of "all_pairs n", OF chunk] bind_Inr)
    with enumerates_step [OF sub] \<open>k = Suc k'\<close> show ?thesis by simp
  qed
qed

lemma card_matchings_carrier:
  assumes "finite A"
  shows "card (matchings A k) = card (matchings {0..<card A} k)"
proof -
  from ex_bij_betw_nat_finite [OF assms] obtain h where h: "bij_betw h {0..<card A} A" by blast
  then have inj: "inj_on h {0..<card A}" and im: "h ` {0..<card A} = A"
    by (auto simp: bij_betw_def)
  have "card (matchings A k) = card ((\<lambda>M. (`) h ` M) ` matchings {0..<card A} k)"
    using matchings_image [OF inj, of k] im by simp
  also have "\<dots> = card (matchings {0..<card A} k)"
    by (rule card_image) (rule matchings_image_inj [OF inj])
  finally show ?thesis .
qed

lemma card_matchings_step:
  "Suc k * card (matchings {0..<n} (Suc k)) = (n choose 2) * card (matchings {0..<n - 2} k)"
proof -
  let ?B = "{0..<n}"
  let ?X = "matchings ?B (Suc k)"
  let ?P = "{e. e \<subseteq> ?B \<and> card e = 2}"
  have finX: "finite ?X" by (simp add: finite_matchings)
  have finP: "finite ?P" by simp
  have finM: "\<And>M. M \<in> ?X \<Longrightarrow> finite M \<and> card M = Suc k" by (simp add: matchings_def)
  have "card (SIGMA M:?X. M) = (\<Sum>M\<in>?X. card M)"
    using finX finM by (intro card_SigmaI) auto
  also have "\<dots> = (\<Sum>M\<in>?X. Suc k)" using finM by (intro sum.cong) auto
  also have "\<dots> = Suc k * card ?X" by simp
  finally have left: "card (SIGMA M:?X. M) = Suc k * card ?X" .
  have each: "card {M \<in> ?X. e \<in> M} = card (matchings {0..<n - 2} k)" if "e \<in> ?P" for e
  proof -
    from that have e: "e \<subseteq> ?B" "card e = 2" by auto
    then have fe: "finite e" by (meson finite_atLeastLessThan finite_subset)
    have "card {M \<in> ?X. e \<in> M} = card (insert e ` matchings (?B - e) k)"
      using matchings_insert [OF e, of k] by simp
    also have "\<dots> = card (matchings (?B - e) k)"
      by (rule card_image) (rule matchings_insert_inj [OF e])
    also have "\<dots> = card (matchings {0..<card (?B - e)} k)"
      by (rule card_matchings_carrier) simp
    also have "card (?B - e) = n - 2"
      using e fe by (simp add: card_Diff_subset)
    finally show ?thesis .
  qed
  have "card (SIGMA e:?P. {M \<in> ?X. e \<in> M}) = (\<Sum>e\<in>?P. card {M \<in> ?X. e \<in> M})"
    using finP finX by (intro card_SigmaI) auto
  also have "\<dots> = (\<Sum>e\<in>?P. card (matchings {0..<n - 2} k))"
    using each by (intro sum.cong) auto
  also have "\<dots> = card ?P * card (matchings {0..<n - 2} k)" by simp
  also have "card ?P = n choose 2" by (simp add: n_subsets)
  finally have right: "card (SIGMA e:?P. {M \<in> ?X. e \<in> M})
      = (n choose 2) * card (matchings {0..<n - 2} k)" .
  have "(SIGMA e:?P. {M \<in> ?X. e \<in> M}) = prod.swap ` (SIGMA M:?X. M)"
    by (auto simp: matchings_def image_iff) 
  then have "card (SIGMA e:?P. {M \<in> ?X. e \<in> M}) = card (SIGMA M:?X. M)"
    by (simp add: card_image)
  with left right show ?thesis by simp
qed

lemma card_matchings_formula:
  "2 * k \<le> n \<Longrightarrow> card (matchings {0..<n} k) * (2 ^ k * fact k * fact (n - 2 * k)) = fact n"
proof (induction k arbitrary: n)
  case 0
  then show ?case by (simp add: matchings_0)
next
  case (Suc k)
  then have n2: "2 \<le> n" and le: "2 * k \<le> n - 2" by auto
  let ?m' = "card (matchings {0..<n} (Suc k))"
  let ?m = "card (matchings {0..<n - 2} k)"
  have eq: "n - 2 - 2 * k = n - 2 * Suc k" by simp
  have "?m' * (2 ^ Suc k * fact (Suc k) * fact (n - 2 * Suc k))
      = 2 * (Suc k * ?m') * (2 ^ k * fact k * fact (n - 2 * Suc k))"
    by (simp add: algebra_simps)
  also have "\<dots> = 2 * ((n choose 2) * ?m) * (2 ^ k * fact k * fact (n - 2 * Suc k))"
    by (simp only: card_matchings_step)
  also have "\<dots> = 2 * (n choose 2) * (?m * (2 ^ k * fact k * fact (n - 2 - 2 * k)))"
    by (simp only: eq mult.assoc)
  also have "\<dots> = 2 * (n choose 2) * fact (n - 2)"
    by (simp only: Suc.IH [OF le])
  also have "\<dots> = fact n"
    using binomial_fact_lemma [OF n2] by (simp add: mult.commute mult.left_commute fact_2)
  finally show ?case .
qed

lemma enumerates_length:
  assumes "enumerates n k ps"
  shows "length ps = card (matchings {0..<n} k)"
proof -
  from assms have d: "distinct (map pair_set ps)"
    and m: "pair_set ` set ps = matchings {0..<n} k" by (auto simp: enumerates_def)
  from d have "card (set (map pair_set ps)) = length (map pair_set ps)" by (rule distinct_card)
  with m show ?thesis by simp
qed

section \<open>The builders return the specification's sums\<close>

lemma foldM_Inr:
  "(\<And>acc y. y \<in> set ys \<Longrightarrow> f acc y = Inr (g y acc)) \<Longrightarrow> foldM f ys acc = Inr (fold g ys acc)"
  by (induction ys arbitrary: acc) simp_all

lemma foldM_Inl:
  assumes "y \<in> set ys" "\<And>acc. f acc y = Inl IndexError"
  shows "foldM f ys acc = Inl IndexError"
  using assms(1)
proof (induction ys arbitrary: acc)
  case Nil
  then show ?case by simp
next
  case (Cons a ys)
  show ?case
  proof (cases "f acc a")
    case (Inl e)
    then show ?thesis by (cases e) simp
  next
    case (Inr b)
    show ?thesis
    proof (cases "a = y")
      case True
      with assms(2) [of acc] Inr show ?thesis by simp
    next
      case False
      with Cons.prems have "y \<in> set ys" by simp
      from Cons.IH [OF this] Inr show ?thesis by simp
    qed
  qed
qed

lemma fold_filter: "fold (\<lambda>y t. if P y then h y t else t) ys acc = fold h (filter P ys) acc"
  by (induction ys arbitrary: acc) simp_all

lemma paired_positions_eq: "paired_positions p = set (positions p)"
proof -
  have "fold (\<lambda>q acc. insert (snd q) (insert (fst q) acc)) p S = S \<union> set (positions p)" for S
    by (induction p arbitrary: S) (auto simp: positions_Cons positions_def)
  then show ?thesis by (simp add: paired_positions_def)
qed

lemma double_factorial_guard:
  "(if c > 0 then double_factorial c else 1) = double_factorial c"
  by (simp add: double_factorial.simps [of c])

lemma valid_pairing_positions:
  assumes "valid_pairing n p" "q \<in> set p"
  shows "fst q < n" "snd q < n"
  using assms by (auto simp: valid_pairing_def intro: less_trans)

lemma trace_term_ok:
  assumes "valid_pairing (nat n) p" "nat n \<le> length indices"
  shows "trace_term n indices p = Inr (spec_pairing_product xa indices (nat n) p)"
proof -
  have 1: "foldM (\<lambda>term q.
             bind (getitem indices (fst q)) (\<lambda>a.
             bind (getitem indices (snd q)) (\<lambda>b. Inr (Mul term (delta a b)))))
           p (Num 1)
        = Inr (fold (\<lambda>q t. Mul t (delta (indices ! fst q) (indices ! snd q))) p (Num 1))"
  proof (rule foldM_Inr)
    fix acc q assume "q \<in> set p"
    from valid_pairing_positions [OF assms(1) this] assms(2)
    have "fst q < length indices" "snd q < length indices" by auto
    then show "bind (getitem indices (fst q)) (\<lambda>a.
             bind (getitem indices (snd q)) (\<lambda>b. Inr (Mul acc (delta a b))))
        = Inr (Mul acc (delta (indices ! fst q) (indices ! snd q)))"
      by (simp add: getitem_def)
  qed
  have 2: "foldM (\<lambda>term pos.
             if pos \<notin> paired_positions p
             then bind (getitem indices pos) (\<lambda>a. Inr (Mul term (xa a)))
             else Inr term)
           [0..<nat n] t
        = Inr (fold (\<lambda>pos t. if pos \<notin> set (positions p) then Mul t (xa (indices ! pos)) else t)
                 [0..<nat n] t)" for t
  proof (rule foldM_Inr)
    fix acc pos assume "pos \<in> set [0..<nat n]"
    with assms(2) have "pos < length indices" by simp
    then show "(if pos \<notin> paired_positions p
             then bind (getitem indices pos) (\<lambda>a. Inr (Mul acc (xa a)))
             else Inr acc)
        = Inr (if pos \<notin> set (positions p) then Mul acc (xa (indices ! pos)) else acc)"
      by (simp add: getitem_def paired_positions_eq)
  qed
  show ?thesis
    unfolding trace_term_def spec_pairing_product_def 1 bind_Inr 2 fold_filter ..
qed

lemma derivative_trace_term_ok:
  assumes "valid_pairing (nat n) p" "nat n \<le> length indices"
  shows "derivative_trace_term n indices p = Inr (spec_pairing_product x indices (nat n) p)"
proof -
  have 1: "foldM (\<lambda>term q.
             bind (getitem indices (fst q)) (\<lambda>a.
             bind (getitem indices (snd q)) (\<lambda>b. Inr (Mul term (delta a b)))))
           p (Num 1)
        = Inr (fold (\<lambda>q t. Mul t (delta (indices ! fst q) (indices ! snd q))) p (Num 1))"
  proof (rule foldM_Inr)
    fix acc q assume "q \<in> set p"
    from valid_pairing_positions [OF assms(1) this] assms(2)
    have "fst q < length indices" "snd q < length indices" by auto
    then show "bind (getitem indices (fst q)) (\<lambda>a.
             bind (getitem indices (snd q)) (\<lambda>b. Inr (Mul acc (delta a b))))
        = Inr (Mul acc (delta (indices ! fst q) (indices ! snd q)))"
      by (simp add: getitem_def)
  qed
  have 2: "foldM (\<lambda>term pos.
             if pos \<notin> paired_positions p
             then bind (getitem indices pos) (\<lambda>a. Inr (Mul term (x a)))
             else Inr term)
           [0..<nat n] t
        = Inr (fold (\<lambda>pos t. if pos \<notin> set (positions p) then Mul t (x (indices ! pos)) else t)
                 [0..<nat n] t)" for t
  proof (rule foldM_Inr)
    fix acc pos assume "pos \<in> set [0..<nat n]"
    with assms(2) have "pos < length indices" by simp
    then show "(if pos \<notin> paired_positions p
             then bind (getitem indices pos) (\<lambda>a. Inr (Mul acc (x a)))
             else Inr acc)
        = Inr (if pos \<notin> set (positions p) then Mul acc (x (indices ! pos)) else acc)"
      by (simp add: getitem_def paired_positions_eq)
  qed
  show ?thesis
    unfolding derivative_trace_term_def spec_pairing_product_def 1 bind_Inr 2 fold_filter ..
qed

lemma generate_pairings_valid:
  "generate_k_pairings n k = Inr (generate_pairings n k)"
  "p \<in> set (generate_pairings n k) \<Longrightarrow> valid_pairing n p"
  using generate_enumerates [of n k] by (auto simp: generate_pairings_def enumerates_def)

lemma trace_with_k_pairs_ok:
  assumes "nat n \<le> length indices" "int k \<le> n div 2"
  shows "trace_with_k_pairs n indices k
         = Inr (spec_trace_term xa ra0 (\<lambda>k. (- 1) ^ k) (nat n) indices k)"
proof -
  from assms(2) have n0: "0 \<le> n" by (cases "0 \<le> n") (auto simp: div_neg_pos_less0 dest: zdiv_mono1)
  have "foldM (\<lambda>total pairing.
                bind (trace_term n indices pairing) (\<lambda>term. Inr (Add total term)))
              (generate_pairings (nat n) k) (Num 0)
        = Inr (spec_pairing_sum xa indices (nat n) (generate_pairings (nat n) k))"
    unfolding spec_pairing_sum_def
  proof (rule foldM_Inr)
    fix acc p assume "p \<in> set (generate_pairings (nat n) k)"
    then have "valid_pairing (nat n) p" by (rule generate_pairings_valid(2))
    from trace_term_ok [OF this assms(1)]
    show "bind (trace_term n indices p) (\<lambda>term. Inr (Add acc term))
        = Inr (Add acc (spec_pairing_product xa indices (nat n) p))" by simp
  qed
  then show ?thesis
    using assms(2) n0
    by (simp add: trace_with_k_pairs_def generate_pairings_valid(1) spec_trace_term_def
        double_factorial_guard Let_def)
qed

lemma derivative_trace_with_k_pairs_ok:
  assumes "nat n \<le> length indices" "int k \<le> n div 2"
  shows "derivative_trace_with_k_pairs n indices k
         = Inr (spec_trace_term x r0 (\<lambda>k. 1) (nat n) indices k)"
proof -
  from assms(2) have n0: "0 \<le> n" by (cases "0 \<le> n") (auto simp: div_neg_pos_less0 dest: zdiv_mono1)
  have "foldM (\<lambda>total pairing.
                bind (derivative_trace_term n indices pairing) (\<lambda>term. Inr (Add total term)))
              (generate_pairings (nat n) k) (Num 0)
        = Inr (spec_pairing_sum x indices (nat n) (generate_pairings (nat n) k))"
    unfolding spec_pairing_sum_def
  proof (rule foldM_Inr)
    fix acc p assume "p \<in> set (generate_pairings (nat n) k)"
    then have "valid_pairing (nat n) p" by (rule generate_pairings_valid(2))
    from derivative_trace_term_ok [OF this assms(1)]
    show "bind (derivative_trace_term n indices p) (\<lambda>term. Inr (Add acc term))
        = Inr (Add acc (spec_pairing_product x indices (nat n) p))" by simp
  qed
  then show ?thesis
    using assms(2) n0
    by (simp add: derivative_trace_with_k_pairs_def generate_pairings_valid(1) spec_trace_term_def
        double_factorial_guard Let_def)
qed

lemma pair_range: "[1..<nat (n div 2 + 1)] = [1..<nat n div 2 + 1]"
proof (cases "0 \<le> n")
  case True
  then have "nat (n div 2 + 1) = nat n div 2 + 1"
    by (simp add: nat_add_distrib nat_div_distrib pos_imp_zdiv_nonneg_iff)
  then show ?thesis by simp
next
  case False
  then have "n div 2 < 0" by (simp add: div_neg_pos_less0)
  with False show ?thesis by simp
qed

lemma compute_all_traces_ok:
  assumes "nat n \<le> length indices"
  shows "compute_all_traces n indices
         = Inr (spec_trace_sum xa ra0 (\<lambda>k. (- 1) ^ k) (nat n) indices)"
  unfolding compute_all_traces_def spec_trace_sum_def pair_range
proof (rule foldM_Inr)
  fix acc k assume "k \<in> set [1..<nat n div 2 + 1]"
  then have "int k \<le> n div 2" by (cases "0 \<le> n") (auto simp: nat_div_distrib le_nat_iff)
  from trace_with_k_pairs_ok [OF assms this]
  show "bind (trace_with_k_pairs n indices k) (\<lambda>pair_terms. Inr (Add acc pair_terms))
      = Inr (Add acc (spec_trace_term xa ra0 (\<lambda>k. (- 1) ^ k) (nat n) indices k))" by simp
qed

lemma compute_all_derivative_traces_ok:
  assumes "nat n \<le> length indices"
  shows "compute_all_derivative_traces n indices
         = Inr (spec_trace_sum x r0 (\<lambda>k. 1) (nat n) indices)"
  unfolding compute_all_derivative_traces_def spec_trace_sum_def pair_range
proof (rule foldM_Inr)
  fix acc k assume "k \<in> set [1..<nat n div 2 + 1]"
  then have "int k \<le> n div 2" by (cases "0 \<le> n") (auto simp: nat_div_distrib le_nat_iff)
  from derivative_trace_with_k_pairs_ok [OF assms this]
  show "bind (derivative_trace_with_k_pairs n indices k) (\<lambda>pair_terms. Inr (Add acc pair_terms))
      = Inr (Add acc (spec_trace_term x r0 (\<lambda>k. 1) (nat n) indices k))" by simp
qed

lemma trace_term_short:
  assumes "2 \<le> n" "int (length indices) < n"
  shows "trace_term n indices [(0, nat n - 1)] = Inl IndexError"
    and "derivative_trace_term n indices [(0, nat n - 1)] = Inl IndexError"
proof -
  from assms have "getitem indices (nat n - 1) = Inl IndexError"
    by (auto simp: getitem_def)
  then have "bind (getitem indices 0) (\<lambda>a.
             bind (getitem indices (nat n - 1)) (\<lambda>b. Inr (Mul (Num 1) (delta a b))))
        = Inl IndexError"
    by (cases "getitem indices 0") (auto, metis py_error.exhaust)
  then show "trace_term n indices [(0, nat n - 1)] = Inl IndexError"
    and "derivative_trace_term n indices [(0, nat n - 1)] = Inl IndexError"
    by (simp_all add: trace_term_def derivative_trace_term_def)
qed

lemma last_pair_in_all_pairs: "2 \<le> n \<Longrightarrow> [(0, nat n - 1)] \<in> set (map (\<lambda>p. [p]) (all_pairs (nat n)))"
  by (auto simp: set_all_pairs)

lemma one_in_pair_range: "2 \<le> n \<Longrightarrow> 1 \<in> set [1..<nat (n div 2 + 1)]"
  by auto

lemma compute_all_traces_short:
  assumes "2 \<le> n" "int (length indices) < n"
  shows "compute_all_traces n indices = Inl IndexError"
proof -
  have "foldM (\<lambda>total pairing.
                bind (trace_term n indices pairing) (\<lambda>term. Inr (Add total term)))
              (map (\<lambda>p. [p]) (all_pairs (nat n))) (Num 0) = Inl IndexError"
    by (rule foldM_Inl [OF last_pair_in_all_pairs [OF assms(1)]])
       (simp only: trace_term_short(1) [OF assms] bind_Inl)
  moreover from assms(1) have "\<not> 1 > n div 2" by simp
  ultimately have "trace_with_k_pairs n indices 1 = Inl IndexError"
    by (simp add: trace_with_k_pairs_def)
  then show ?thesis
    unfolding compute_all_traces_def
    by (intro foldM_Inl [OF one_in_pair_range [OF assms(1)]]) simp
qed

lemma compute_all_derivative_traces_short:
  assumes "2 \<le> n" "int (length indices) < n"
  shows "compute_all_derivative_traces n indices = Inl IndexError"
proof -
  have "foldM (\<lambda>total pairing.
                bind (derivative_trace_term n indices pairing) (\<lambda>term. Inr (Add total term)))
              (map (\<lambda>p. [p]) (all_pairs (nat n))) (Num 0) = Inl IndexError"
    by (rule foldM_Inl [OF last_pair_in_all_pairs [OF assms(1)]])
       (simp only: trace_term_short(2) [OF assms] bind_Inl)
  moreover from assms(1) have "\<not> 1 > n div 2" by simp
  ultimately have "derivative_trace_with_k_pairs n indices 1 = Inl IndexError"
    by (simp add: derivative_trace_with_k_pairs_def)
  then show ?thesis
    unfolding compute_all_derivative_traces_def
    by (intro foldM_Inl [OF one_in_pair_range [OF assms(1)]]) simp
qed

lemma Q_n_general_ok:
  assumes "nat n \<le> length indices"
  shows "Q_n_general n indices
       = Inr (Add (fold (\<lambda>idx t. Mul t (xa idx)) indices (Num (double_factorial (2 * n - 1))))
                  (spec_trace_sum xa ra0 (\<lambda>k. (- 1) ^ k) (nat n) indices))"
  by (simp add: Q_n_general_def compute_all_traces_ok [OF assms])

lemma recursive_derivative_ok:
  assumes "nat n \<le> length indices"
  shows "recursive_derivative n indices
       = Inr (Div (Mul (Num ((- 1) ^ nat \<bar>n\<bar>))
                (Sub (fold (\<lambda>idx t. Mul t (x idx)) indices (Num (double_factorial (2 * n - 1))))
                     (spec_trace_sum x r0 (\<lambda>k. 1) (nat n) indices)))
              (Pwr r0 (2 * n + 1)))"
  by (simp add: recursive_derivative_def build_derivative_numerator_def
      compute_all_derivative_traces_ok [OF assms])

lemma Q_tensor_raises_iff:
  "(\<exists>e. Q_tensor n indices = Inl e) \<longleftrightarrow> 1 \<le> n \<and> int (length indices) < n"
proof -
  consider "n \<le> 0" | "n = 1" | "2 \<le> n" "n \<le> int (length indices)" | "2 \<le> n" "int (length indices) < n"
    by linarith
  then show ?thesis
  proof cases
    case 1
    then have "nat n \<le> length indices" by simp
    from Q_n_general_ok [OF this] 1 show ?thesis by (simp add: Q_tensor_def)
  next
    case 2
    then show ?thesis by (auto simp: Q_tensor_def getitem_def)
  next
    case 3
    then have "nat n \<le> length indices" by simp
    from Q_n_general_ok [OF this] 3 show ?thesis by (simp add: Q_tensor_def)
  next
    case 4
    from compute_all_traces_short [OF 4] 4 show ?thesis
      by (simp add: Q_tensor_def Q_n_general_def)
  qed
qed

lemma nth_derivative_raises_iff:
  "(\<exists>e. nth_derivative_1_over_r n indices = Inl e) \<longleftrightarrow> 1 \<le> n \<and> int (length indices) < n"
proof -
  consider "n \<le> 0" | "n = 1" | "n = 2" | "3 \<le> n" "n \<le> int (length indices)" | "3 \<le> n" "int (length indices) < n"
    by linarith
  then show ?thesis
  proof cases
    case 1
    then have "nat n \<le> length indices" by simp
    from recursive_derivative_ok [OF this] 1 show ?thesis by (simp add: nth_derivative_1_over_r_def)
  next
    case 2
    then show ?thesis by (auto simp: nth_derivative_1_over_r_def getitem_def)
  next
    case 3
    then show ?thesis by (auto simp: nth_derivative_1_over_r_def getitem_def)
  next
    case 4
    then have "nat n \<le> length indices" by simp
    from recursive_derivative_ok [OF this] 4 show ?thesis by (simp add: nth_derivative_1_over_r_def)
  next
    case 5
    then have "2 \<le> n" by simp
    from compute_all_derivative_traces_short [OF this 5(2)] 5 show ?thesis
      by (simp add: nth_derivative_1_over_r_def recursive_derivative_def
          build_derivative_numerator_def)
  qed
qed

section \<open>Collecting equal keys\<close>

lemma weight_empty [simp]: "weight {#} b = 0"
  by (simp add: weight_def)

lemma weight_add_mset [simp]:
  "weight (add_mset p T) b = (if fst p = b then snd p else 0) + weight T b"
  by (simp add: weight_def)

lemma weight_union [simp]: "weight (A + B) b = weight A b + weight B b"
  by (simp add: weight_def)

lemma weight_outside: "b \<notin> fst ` set_mset T \<Longrightarrow> weight T b = 0"
  by (induction T) auto

lemma support_weight: "{b \<in> fst ` set_mset T. weight T b \<noteq> 0} = {b. weight T b \<noteq> 0}"
  using weight_outside by fastforce

lemma finite_support_weight: "finite {b. weight T b \<noteq> 0}"
proof -
  have "finite {b \<in> fst ` set_mset T. weight T b \<noteq> 0}" by simp
  then show ?thesis by (simp only: support_weight)
qed

lemma merge_alt: "merge T = image_mset (\<lambda>b. (b, weight T b)) (mset_set {b. weight T b \<noteq> 0})"
  by (simp only: merge_def support_weight)

lemma merge_cong: "weight A = weight B \<Longrightarrow> merge A = merge B"
  by (simp add: merge_alt)

lemma weight_image_mset_set:
  assumes "finite S"
  shows "weight (image_mset (\<lambda>b. (b, f b)) (mset_set S)) b = (if b \<in> S then f b else 0)"
proof -
  have "weight (image_mset (\<lambda>b. (b, f b)) (mset_set S)) b
      = (\<Sum>b'\<in>S. if b' = b then f b' else 0)"
    by (simp add: weight_def image_mset.compositionality comp_def sum_unfold_sum_mset cong: if_cong)
  also have "\<dots> = (if b \<in> S then f b else 0)"
    using assms by (simp add: sum.delta)
  finally show ?thesis .
qed

lemma weight_merge [simp]: "weight (merge T) b = weight T b"
  unfolding merge_alt
  by (simp add: weight_image_mset_set [OF finite_support_weight])

lemma merge_merge_union: "merge (merge A + B) = merge (A + B)"
  by (rule merge_cong) (simp add: fun_eq_iff)

lemma merge_union_merge: "merge (A + merge B) = merge (A + B)"
  by (rule merge_cong) (simp add: fun_eq_iff)

lemma merge_idem [simp]: "merge (merge T) = merge T"
  by (rule merge_cong) (simp add: fun_eq_iff)

lemma merge_empty [simp]: "merge {#} = {#}"
  by (simp add: merge_def)

lemma keys_merge: "fst ` set_mset (merge T) = {b. weight T b \<noteq> 0}"
  by (simp add: merge_alt finite_support_weight image_image)

lemma keys_merge_subset: "fst ` set_mset (merge T) \<subseteq> fst ` set_mset T"
  unfolding keys_merge using weight_outside by fastforce

lemma filter_merge:
  "filter_mset (\<lambda>p. fst p \<noteq> b) (merge T)
     = image_mset (\<lambda>x. (x, weight T x)) (mset_set ({x. weight T x \<noteq> 0} - {b}))"
proof -
  have "filter_mset (\<lambda>p. fst p \<noteq> b) (merge T)
      = image_mset (\<lambda>x. (x, weight T x)) (filter_mset (\<lambda>x. x \<noteq> b) (mset_set {x. weight T x \<noteq> 0}))"
    by (simp add: merge_alt filter_mset_image_mset)
  also have "filter_mset (\<lambda>x. x \<noteq> b) (mset_set {x. weight T x \<noteq> 0})
      = mset_set {x \<in> {x. weight T x \<noteq> 0}. x \<noteq> b}"
    by (simp add: filter_mset_mset_set finite_support_weight)
  also have "{x \<in> {x. weight T x \<noteq> 0}. x \<noteq> b} = {x. weight T x \<noteq> 0} - {b}" by auto
  finally show ?thesis .
qed

lemma merge_add_mset: "merge (add_mset (b, c) T) = ins b c (merge T)"
proof -
  let ?T' = "add_mset (b, c) T"
  let ?K = "{x. weight T x \<noteq> 0}"
  have fin: "finite (?K - {b})" by (simp add: finite_support_weight)
  have same: "image_mset (\<lambda>x. (x, weight ?T' x)) (mset_set (?K - {b}))
      = image_mset (\<lambda>x. (x, weight T x)) (mset_set (?K - {b}))"
  proof (rule image_mset_cong)
    fix x assume "x \<in># mset_set (?K - {b})"
    with fin have "x \<in> ?K - {b}" by (simp only: finite_set_mset_mset_set)
    then show "(x, weight ?T' x) = (x, weight T x)" by auto
  qed
  show ?thesis
  proof (cases "weight T b + c = 0")
    case True
    then have "{x. weight ?T' x \<noteq> 0} = ?K - {b}" by (auto simp: add.commute)
    then have "merge ?T' = image_mset (\<lambda>x. (x, weight ?T' x)) (mset_set (?K - {b}))"
      by (simp add: merge_alt)
    with same True show ?thesis by (simp add: ins_def filter_merge)
  next
    case False
    then have "{x. weight ?T' x \<noteq> 0} = insert b (?K - {b})" by (auto simp: add.commute)
    then have "merge ?T' = image_mset (\<lambda>x. (x, weight ?T' x)) (mset_set (insert b (?K - {b})))"
      by (simp add: merge_alt)
    also have "mset_set (insert b (?K - {b})) = add_mset b (mset_set (?K - {b}))"
      using fin by (intro mset_set.insert) auto
    also have "image_mset (\<lambda>x. (x, weight ?T' x)) (add_mset b (mset_set (?K - {b})))
        = add_mset (b, weight ?T' b) (image_mset (\<lambda>x. (x, weight ?T' x)) (mset_set (?K - {b})))"
      by (simp only: image_mset_add_mset)
    finally show ?thesis using same False by (simp add: ins_def filter_merge add.commute)
  qed
qed

section \<open>Laws of the canonical sum and product\<close>

lemma nf_add_commute: "nf_add p q = nf_add q p"
  by (simp add: nf_add_def add.commute)

lemma nf_add_assoc: "nf_add (nf_add p q) r = nf_add p (nf_add q r)"
  by (simp add: nf_add_def merge_merge_union merge_union_merge add.assoc)

lemma nf_add_left_commute: "nf_add p (nf_add q r) = nf_add q (nf_add p r)"
  by (simp add: nf_add_def merge_union_merge add.left_commute)

lemma nf_add_zero_merge: "nf_add (nf_num 0) p = merge p"
  by (simp add: nf_add_def nf_num_def)

lemma nf_add_merge_left [simp]: "nf_add (merge p) q = nf_add p q"
  by (simp add: nf_add_def merge_merge_union)

lemma nf_add_merge_right [simp]: "nf_add p (merge q) = nf_add p q"
  by (simp add: nf_add_def merge_union_merge)

lemma merge_nf_add [simp]: "merge (nf_add p q) = nf_add p q"
  by (simp add: nf_add_def)

lemma as_term_empty [simp]: "as_term {#} = (0, {#})"
  by (simp add: as_term_def)

lemma as_term_single [simp]: "as_term {#(m, c)#} = (c, m)"
  by (simp add: as_term_def)

lemma as_term_longer: "2 \<le> size p \<Longrightarrow> as_term p = (1, {#(Paren p, 1)#})"
  by (auto simp: as_term_def)

lemma mk_term_zero [simp]: "mk_term 0 m = {#}"
  by (simp add: mk_term_def)

lemma as_term_mk_term: "c \<noteq> 0 \<Longrightarrow> as_term (mk_term c m) = (c, m)"
proof -
  assume c: "c \<noteq> 0"
  show ?thesis
  proof (cases "c = 1 \<and> size m = 1")
    case False
    with c show ?thesis by (auto simp: mk_term_def)
  next
    case True
    then have "size m = 1" by simp
    then obtain be where m: "m = {#be#}" by (metis size_1_singleton_mset)
    obtain b e where be: "be = (b, e)" by (cases be)
    show ?thesis
    proof (cases b)
      case (Paren s)
      then show ?thesis
        using True m be by (auto simp: mk_term_def as_term_longer)
    qed (use True m be in \<open>auto simp: mk_term_def\<close>)
  qed
qed

lemma nf_mul_commute: "nf_mul p q = nf_mul q p"
  by (simp add: nf_mul_def Let_def split_beta mult.commute add.commute)

lemma nf_mul_as_term:
  "as_term (nf_mul p q) =
     (if fst (as_term p) * fst (as_term q) = 0 then (0, {#})
      else (fst (as_term p) * fst (as_term q), merge (snd (as_term p) + snd (as_term q))))"
  by (simp add: nf_mul_def Let_def split_beta as_term_mk_term)

lemma nf_mul_assoc: "nf_mul (nf_mul p q) r = nf_mul p (nf_mul q r)"
proof -
  obtain c1 m1 where p: "as_term p = (c1, m1)" by (cases "as_term p")
  obtain c2 m2 where q: "as_term q = (c2, m2)" by (cases "as_term q")
  obtain c3 m3 where r: "as_term r = (c3, m3)" by (cases "as_term r")
  show ?thesis
  proof (cases "c1 = 0 \<or> c2 = 0 \<or> c3 = 0")
    case True
    then show ?thesis
      unfolding nf_mul_def [of "nf_mul p q" r] nf_mul_def [of p "nf_mul q r"] nf_mul_as_term
      by (auto simp: p q r Let_def)
  next
    case False
    then show ?thesis
      unfolding nf_mul_def [of "nf_mul p q" r] nf_mul_def [of p "nf_mul q r"] nf_mul_as_term
      by (simp add: p q r Let_def merge_merge_union merge_union_merge add.assoc mult.assoc)
  qed
qed

lemma nf_mul_left_commute: "nf_mul p (nf_mul q r) = nf_mul q (nf_mul p r)"
  by (metis nf_mul_assoc nf_mul_commute)

lemma as_term_num [simp]: "as_term (nf_num c) = (c, {#})"
  by (simp add: nf_num_def)

lemma as_term_base [simp]: "as_term (nf_base b) = (1, {#(b, 1)#})"
  by (simp add: nf_base_def)

lemma mk_term_num [simp]: "mk_term c {#} = nf_num c"
  by (simp add: mk_term_def nf_num_def)

lemma nf_mul_num_num [simp]: "nf_mul (nf_num a) (nf_num b) = nf_num (a * b)"
  by (simp add: nf_mul_def)

lemma merge_single [simp]: "merge {#(b, c)#} = (if c = 0 then {#} else {#(b, c)#})"
  by (simp add: merge_add_mset ins_def)

lemma nf_mul_one_atom [simp]:
  "nf_mul (nf_num 1) (nf_base (App f args)) = nf_base (App f args)"
  "nf_mul (nf_num 1) (nf_base (Var s)) = nf_base (Var s)"
  by (simp_all add: nf_mul_def mk_term_def nf_base_def)

lemma Q_n_general_2:
  "Q_n_general 2 [i, j] =
     Inr (Add (Mul (Mul (Num 3) (xa i)) (xa j))
           (Add (Num 0)
             (Mul (Mul (Num (- 1)) (Pwr ra0 2)) (Add (Num 0) (Mul (Num 1) (delta i j))))))"
  by code_simp

lemma Q_n_general_3:
  "Q_n_general 3 [i, j, k] =
     Inr (Add (Mul (Mul (Mul (Num 15) (xa i)) (xa j)) (xa k))
           (Add (Num 0)
             (Mul (Mul (Num (- 3)) (Pwr ra0 2))
               (Add (Add (Add (Num 0)
                       (Mul (Mul (Num 1) (delta i j)) (xa k)))
                       (Mul (Mul (Num 1) (delta i k)) (xa j)))
                  (Mul (Mul (Num 1) (delta j k)) (xa i))))))"
  by code_simp

lemma merge_nf_base [simp]: "merge (nf_base b) = nf_base b"
  by (simp add: nf_base_def)

lemma merge_nf_num [simp]: "merge (nf_num c) = nf_num c"
  by (simp add: nf_num_def)

lemmas nf_mul_ac = nf_mul_assoc nf_mul_commute nf_mul_left_commute

lemmas nf_add_ac = nf_add_assoc nf_add_commute nf_add_left_commute

lemma canon_Q_2:
  "canon (Add (Mul (Mul (Num 3) (xa i)) (xa j))
           (Add (Num 0)
             (Mul (Mul (Num (- 1)) (Pwr ra0 2)) (Add (Num 0) (Mul (Num 1) (delta i j))))))
   = canon (Sub (Mul (Mul (Num 3) (xa i)) (xa j)) (Mul (delta i j) (Pwr ra0 2)))"
  by (simp add: xa_def delta_def ra0_def nf_add_zero_merge nf_mul_ac)

lemma canon_Q_3:
  "canon (Add (Mul (Mul (Mul (Num 15) (xa i)) (xa j)) (xa k))
           (Add (Num 0)
             (Mul (Mul (Num (- 3)) (Pwr ra0 2))
               (Add (Add (Add (Num 0)
                       (Mul (Mul (Num 1) (delta i j)) (xa k)))
                       (Mul (Mul (Num 1) (delta i k)) (xa j)))
                  (Mul (Mul (Num 1) (delta j k)) (xa i))))))
   = canon (Sub (Mul (Mul (Mul (Num 15) (xa i)) (xa j)) (xa k))
             (Mul (Mul (Num 3) (Pwr ra0 2))
               (Add (Add (Mul (delta i j) (xa k)) (Mul (delta i k) (xa j)))
                    (Mul (delta j k) (xa i)))))"
  apply (simp add: xa_def delta_def ra0_def nf_add_zero_merge nf_mul_assoc)
  apply (simp add: nf_mul_assoc [symmetric])
  done

section \<open>Evaluating canonical forms\<close>

lemma add_mset_eq_iff: "add_mset a M = N \<longleftrightarrow> a \<in># N \<and> M = N - {#a#}"
  by auto

lemma diff_single_add_mset:
  "add_mset b N - {#a#} = (if a = b then N else add_mset b (N - {#a#}))"
  by simp

lemmas mset_decide = add_mset_eq_iff diff_single_add_mset

lemmas nf_eval = nf_mul_def nf_add_def nf_pow_def nf_num_def nf_base_def mk_term_def
  merge_add_mset ins_def as_term_longer xa_def delta_def ra0_def

lemma rewrite_term_eval:
  "rewrite_term rule (m', c) =
     nf_mul (nf_num c)
       (nf_prod (snd (rule (image_mset (\<lambda>be. (fst (fst be), snd be)) m'))
          + image_mset (\<lambda>be. nf_pow (snd (fst be)) (snd be))
              (filter_mset (\<lambda>be. (fst (fst be), snd be)
                 \<notin># fst (rule (image_mset (\<lambda>be. (fst (fst be), snd be)) m'))) m')))"
  by (simp add: rewrite_term_def Let_def)

lemma square_rule_eval:
  "square_rule f replacement m =
     (filter_mset (\<lambda>be. is_app1 f (fst be) \<and> snd be = 2) m,
      image_mset (\<lambda>be. replacement) (filter_mset (\<lambda>be. is_app1 f (fst be) \<and> snd be = 2) m))"
  by (simp add: square_rule_def Let_def)

lemma pair_rule_eval:
  "pair_rule f g replacement m =
     (filter_mset (pair_partner f g m) m + filter_mset (pair_partner g f m) m,
      image_mset (\<lambda>be. replacement) (filter_mset (pair_partner f g m) m))"
  by (simp add: pair_rule_def Let_def)

lemma delta_rule_eval:
  "delta_rule v m =
     (filter_mset (delta_partner v m) m
        + image_mset (\<lambda>be. (App ''delta'' [Min (delta_firsts m (label_of be)), label_of be], 1))
            (filter_mset (delta_partner v m) m),
      image_mset (\<lambda>be. nf_base (App v [Min (delta_firsts m (label_of be))]))
        (filter_mset (delta_partner v m) m))"
  by (simp add: delta_rule_def Let_def)

lemma contract_indices_eval:
  "contract_indices e =
     contract_delta (contract_n_n (contract_x_n (contract_x_x (contract_xa_n (contract_xa_xa e)))))"
  by (simp add: contract_indices_def Let_def)

lemma contract_xa_n_eval:
  "contract_xa_n e =
     replace (pair_rule ''n'' ''xa'' (canon dot_xa_n)) nf_base
       (replace (pair_rule ''xa'' ''n'' (canon dot_xa_n)) nf_base e)"
  by (simp add: contract_xa_n_def Let_def)

lemma contract_x_n_eval:
  "contract_x_n e =
     replace (pair_rule ''n'' ''x'' (canon r0)) nf_base
       (replace (pair_rule ''x'' ''n'' (canon r0)) nf_base e)"
  by (simp add: contract_x_n_def Let_def)

lemma contract_delta_eval:
  "contract_delta e =
     replace no_rule delta_trace
       (replace (delta_rule ''n'') nf_base (replace (delta_rule ''n'') nf_base
         (replace (delta_rule ''xa'') nf_base (replace (delta_rule ''xa'') nf_base e))))"
  by (simp add: contract_delta_def Let_def)

lemmas contract_eval = contract_indices_eval contract_xa_xa_def contract_xa_n_eval
  contract_x_x_def contract_x_n_eval contract_n_n_def contract_delta_eval
  replace_def rewrite_sum_def rewrite_term_eval nf_sum_def nf_prod_def
  square_rule_eval pair_rule_eval delta_rule_eval no_rule_def delta_trace_def
  is_app1_def pair_partner_def delta_partner_def delta_firsts_def label_of_def
  r0_def dot_xa_n_def

lemma Q_2_trace_canon:
  "canon (Add (Mul (Mul (Num 3) (xa i)) (xa i))
           (Add (Num 0)
             (Mul (Mul (Num (- 1)) (Pwr ra0 2)) (Add (Num 0) (Mul (Num 1) (delta i i))))))
   = {#({#(App ''xa'' [i], 2)#}, 3), ({#(Var ''ra0'', 2), (App ''delta'' [i, i], 1)#}, - 1)#}"
  by (simp add: nf_eval mset_decide)

lemma Q_2_trace_contract:
  "contract_indices {#({#(App ''xa'' [i], 2)#}, 3), ({#(Var ''ra0'', 2), (App ''delta'' [i, i], 1)#}, - 1)#} = {#}"
  by (simp add: contract_eval nf_eval mset_decide)

lemma Q_3_trace_canon:
  "canon (Add (Mul (Mul (Mul (Num 15) (xa ''i'')) (xa ''i'')) (xa ''k''))
           (Add (Num 0)
             (Mul (Mul (Num (- 3)) (Pwr ra0 2))
               (Add (Add (Add (Num 0)
                       (Mul (Mul (Num 1) (delta ''i'' ''i'')) (xa ''k'')))
                       (Mul (Mul (Num 1) (delta ''i'' ''k'')) (xa ''i'')))
                  (Mul (Mul (Num 1) (delta ''i'' ''k'')) (xa ''i''))))))
   = {#({#(App ''xa'' [''i''], 2), (App ''xa'' [''k''], 1)#}, 15),
       ({#(Var ''ra0'', 2),
          (Paren {#({#(App ''delta'' [''i'', ''i''], 1), (App ''xa'' [''k''], 1)#}, 1),
                   ({#(App ''delta'' [''i'', ''k''], 1), (App ''xa'' [''i''], 1)#}, 2)#}, 1)#}, - 3)#}"
  by (simp add: nf_eval mset_decide)

lemma Q_3_trace_contract:
  "contract_indices
     {#({#(App ''xa'' [''i''], 2), (App ''xa'' [''k''], 1)#}, 15),
       ({#(Var ''ra0'', 2),
          (Paren {#({#(App ''delta'' [''i'', ''i''], 1), (App ''xa'' [''k''], 1)#}, 1),
                   ({#(App ''delta'' [''i'', ''k''], 1), (App ''xa'' [''i''], 1)#}, 2)#}, 1)#}, - 3)#}
   = {#({#(Var ''ra0'', 2), (App ''xa'' [''k''], 1)#}, 15),
       ({#(Var ''ra0'', 2),
          (Paren {#({#(App ''xa'' [''k''], 1)#}, 3),
                   ({#(App ''delta'' [''i'', ''k''], 1), (App ''xa'' [''i''], 1)#}, 2)#}, 1)#}, - 3)#}"
  by (simp add: contract_eval nf_eval mset_decide)

lemma Q_3_trace_fixed:
  "contract_indices
     {#({#(Var ''ra0'', 2), (App ''xa'' [''k''], 1)#}, 15),
       ({#(Var ''ra0'', 2),
          (Paren {#({#(App ''xa'' [''k''], 1)#}, 3),
                   ({#(App ''delta'' [''i'', ''k''], 1), (App ''xa'' [''i''], 1)#}, 2)#}, 1)#}, - 3)#}
   = {#({#(Var ''ra0'', 2), (App ''xa'' [''k''], 1)#}, 15),
       ({#(Var ''ra0'', 2),
          (Paren {#({#(App ''xa'' [''k''], 1)#}, 3),
                   ({#(App ''delta'' [''i'', ''k''], 1), (App ''xa'' [''i''], 1)#}, 2)#}, 1)#}, - 3)#}"
  by (simp add: contract_eval nf_eval mset_decide)

lemma Q_3_last_canon:
  "k \<noteq> i \<Longrightarrow> canon (Add (Mul (Mul (Mul (Num 15) (xa k)) (xa i)) (xa i))
           (Add (Num 0)
             (Mul (Mul (Num (- 3)) (Pwr ra0 2))
               (Add (Add (Add (Num 0)
                       (Mul (Mul (Num 1) (delta k i)) (xa i)))
                       (Mul (Mul (Num 1) (delta k i)) (xa i)))
                  (Mul (Mul (Num 1) (delta i i)) (xa k))))))
   = {#({#(App ''xa'' [i], 2), (App ''xa'' [k], 1)#}, 15),
       ({#(Var ''ra0'', 2),
          (Paren {#({#(App ''delta'' [i, i], 1), (App ''xa'' [k], 1)#}, 1),
                   ({#(App ''delta'' [k, i], 1), (App ''xa'' [i], 1)#}, 2)#}, 1)#}, - 3)#}"
  by (simp add: nf_eval mset_decide)

lemma Q_3_last_contract:
  "k \<noteq> i \<Longrightarrow> contract_indices
     {#({#(App ''xa'' [i], 2), (App ''xa'' [k], 1)#}, 15),
       ({#(Var ''ra0'', 2),
          (Paren {#({#(App ''delta'' [i, i], 1), (App ''xa'' [k], 1)#}, 1),
                   ({#(App ''delta'' [k, i], 1), (App ''xa'' [i], 1)#}, 2)#}, 1)#}, - 3)#}
   = {#}"
  by (simp add: contract_eval nf_eval mset_decide)

section \<open>Products and sums over multisets of factors and terms\<close>

lemma nf_mul_stable: "nf_mul (nf_mul a b) (nf_num 1) = nf_mul a b"
proof -
  obtain c1 m1 where a: "as_term a = (c1, m1)" by (cases "as_term a")
  obtain c2 m2 where b: "as_term b = (c2, m2)" by (cases "as_term b")
  show ?thesis
    unfolding nf_mul_def [of "nf_mul a b"] nf_mul_as_term
    by (simp add: a b nf_mul_def)
qed

lemma nf_mul_num_one: "nf_mul (nf_num c) (nf_num 1) = nf_num c"
  by simp

lemma nf_prod_empty [simp]: "nf_prod {#} = nf_num 1"
  by (simp add: nf_prod_def)

lemma as_term_nf_prod:
  "as_term (nf_prod M) =
     (if prod_mset (image_mset (\<lambda>p. fst (as_term p)) M) = 0 then (0, {#})
      else (prod_mset (image_mset (\<lambda>p. fst (as_term p)) M),
            merge (\<Sum>\<^sub># (image_mset (\<lambda>p. snd (as_term p)) M))))"
  by (simp add: nf_prod_def as_term_mk_term del: prod_mset_zero_iff)

lemma nf_mul_nf_prod: "nf_mul a (nf_prod M) = nf_prod (add_mset a M)"
proof -
  obtain c m where a: "as_term a = (c, m)" by (cases "as_term a")
  show ?thesis
    unfolding nf_mul_def as_term_nf_prod
    by (simp add: a nf_prod_def merge_union_merge del: prod_mset_zero_iff)
qed

lemma fold_nf_mul_general:
  assumes "nf_mul t (nf_num 1) = t"
  shows "fold (\<lambda>y t. nf_mul t (g y)) ys t = nf_mul t (nf_prod (image_mset g (mset ys)))"
  using assms
proof (induction ys arbitrary: t)
  case Nil
  then show ?case by simp
next
  case (Cons y ys)
  have "fold (\<lambda>y t. nf_mul t (g y)) (y # ys) t = fold (\<lambda>y t. nf_mul t (g y)) ys (nf_mul t (g y))"
    by simp
  also have "\<dots> = nf_mul (nf_mul t (g y)) (nf_prod (image_mset g (mset ys)))"
    by (rule Cons.IH) (rule nf_mul_stable)
  also have "\<dots> = nf_mul t (nf_mul (g y) (nf_prod (image_mset g (mset ys))))"
    by (rule nf_mul_assoc)
  also have "nf_mul (g y) (nf_prod (image_mset g (mset ys)))
      = nf_prod (add_mset (g y) (image_mset g (mset ys)))"
    by (rule nf_mul_nf_prod)
  finally show ?case by simp
qed

lemma fold_nf_mul:
  "fold (\<lambda>y t. nf_mul t (g y)) ys (nf_num c) = nf_mul (nf_num c) (nf_prod (image_mset g (mset ys)))"
  by (rule fold_nf_mul_general) simp

lemma fold_nf_add_general:
  assumes "merge t = t"
  shows "fold (\<lambda>y t. nf_add t (g y)) ys t = merge (t + \<Sum>\<^sub># (image_mset g (mset ys)))"
  using assms
proof (induction ys arbitrary: t)
  case Nil
  then show ?case by simp
next
  case (Cons y ys)
  have "fold (\<lambda>y t. nf_add t (g y)) (y # ys) t = fold (\<lambda>y t. nf_add t (g y)) ys (nf_add t (g y))"
    by simp
  also have "\<dots> = merge (nf_add t (g y) + \<Sum>\<^sub># (image_mset g (mset ys)))"
    by (rule Cons.IH) simp
  also have "\<dots> = merge (t + \<Sum>\<^sub># (image_mset g (mset (y # ys))))"
    by (simp add: nf_add_def merge_merge_union add.assoc)
  finally show ?case .
qed

lemma fold_nf_add:
  "fold (\<lambda>y t. nf_add t (g y)) ys (nf_num 0) = nf_sum (image_mset g (mset ys))"
  using fold_nf_add_general [of "nf_num 0" g ys] by (simp add: nf_num_def nf_sum_def)

lemma canon_sym_fold_Mul:
  "canon (sym_delta (fold (\<lambda>y t. Mul t (g y)) ys t))
     = fold (\<lambda>y t. nf_mul t (canon (sym_delta (g y)))) ys (canon (sym_delta t))"
  by (induction ys arbitrary: t) simp_all

lemma canon_sym_fold_Add:
  "canon (sym_delta (fold (\<lambda>y t. Add t (g y)) ys t))
     = fold (\<lambda>y t. nf_add t (canon (sym_delta (g y)))) ys (canon (sym_delta t))"
  by (induction ys arbitrary: t) simp_all

section \<open>Permuting the labels\<close>

lemma sort_mset_cong: "mset xs = mset ys \<Longrightarrow> sort xs = sort ys"
  by (metis properties_for_sort sorted_sort mset_sort)

lemma delta_atom_pair:
  assumes "a < b"
  shows "delta_atom indices {a, b} = nf_base (App ''delta'' (sort [indices ! a, indices ! b]))"
proof -
  from assms have "sorted_list_of_set {a, b} = [a, b]"
    by (simp add: sorted_list_of_set_insert_remove insort_is_Cons) 
  then show ?thesis by (simp add: delta_atom_def)
qed

lemma pairing_product_canon:
  assumes "valid_pairing n p"
  shows "canon (sym_delta (spec_pairing_product xa indices n p))
       = nf_mul (nf_num 1) (nf_prod (matching_factors indices n (pair_set p)))"
proof -
  from assms have ord: "\<And>q. q \<in> set p \<Longrightarrow> fst q < snd q"
    and d: "distinct (positions p)" by (auto simp: valid_pairing_def)
  from disjoint_pair_set [OF d] have dp: "distinct p" by simp
  let ?D = "\<lambda>q. canon (sym_delta (delta (indices ! fst q) (indices ! snd q)))"
  let ?X = "\<lambda>pos. canon (sym_delta (xa (indices ! pos)))"
  let ?U = "filter (\<lambda>pos. pos \<notin> set (positions p)) [0..<n]"
  have "canon (sym_delta (spec_pairing_product xa indices n p))
      = fold (\<lambda>pos t. nf_mul t (?X pos)) ?U (fold (\<lambda>q t. nf_mul t (?D q)) p (nf_num 1))"
    by (simp add: spec_pairing_product_def canon_sym_fold_Mul)
  also have "\<dots> = fold (\<lambda>f t. nf_mul t f) (map ?D p @ map ?X ?U) (nf_num 1)"
    by (simp add: fold_map comp_def)
  also have "\<dots> = nf_mul (nf_num 1) (nf_prod (mset (map ?D p @ map ?X ?U)))"
    using fold_nf_mul [of "\<lambda>f. f" "map ?D p @ map ?X ?U" 1] by simp
  also have "mset (map ?D p @ map ?X ?U) = image_mset ?D (mset p) + image_mset ?X (mset ?U)"
    by simp
  also have "image_mset ?D (mset p) = image_mset (delta_atom indices) (mset_set (pair_set p))"
  proof -
    have inj: "inj_on unordered (set p)"
    proof (rule inj_onI)
      fix a b assume "a \<in> set p" "b \<in> set p" "unordered a = unordered b"
      with ord [of a] ord [of b] show "a = b" by (intro unordered_inj) auto
    qed
    have "mset_set (pair_set p) = image_mset unordered (mset_set (set p))"
      unfolding pair_set_def by (rule image_mset_mset_set [symmetric]) (rule inj)
    also have "mset_set (set p) = mset p" using dp by (rule mset_set_set)
    finally have "image_mset (delta_atom indices) (mset_set (pair_set p))
        = image_mset (\<lambda>q. delta_atom indices (unordered q)) (mset p)"
      by (simp add: image_mset.compositionality comp_def)
    also have "\<dots> = image_mset ?D (mset p)"
    proof (rule image_mset_cong)
      fix q assume "q \<in># mset p"
      then have "fst q < snd q" using ord by simp
      then show "delta_atom indices (unordered q) = ?D q"
        by (simp add: unordered_def delta_atom_pair delta_def)
    qed
    finally show ?thesis by simp
  qed
  also have "image_mset ?X (mset ?U)
      = image_mset (\<lambda>pos. nf_base (App ''xa'' [indices ! pos])) (mset_set ({0..<n} - \<Union>(pair_set p)))"
  proof -
    have "distinct ?U" by simp
    moreover have "set ?U = {0..<n} - \<Union>(pair_set p)" by (auto simp: set_positions)
    ultimately have "mset ?U = mset_set ({0..<n} - \<Union>(pair_set p))"
      by (metis mset_set_set)
    then show ?thesis by (simp add: xa_def)
  qed
  finally show ?thesis by (simp add: matching_factors_def)
qed

lemma permuted_nth:
  assumes "bij_betw \<pi> {0..<n} {0..<n}" "length indices = n" "pos < n"
  shows "map (\<lambda>pos. indices ! \<pi> pos) [0..<n] ! pos = indices ! \<pi> pos"
  using assms by simp

lemma mset_permuted:
  assumes "bij_betw \<pi> {0..<n} {0..<n}" "length indices = n"
  shows "mset (map (\<lambda>pos. indices ! \<pi> pos) [0..<n]) = mset indices"
proof -
  from assms(1) have inj: "inj_on \<pi> {0..<n}" and im: "\<pi> ` {0..<n} = {0..<n}"
    by (auto simp: bij_betw_def)
  have "mset (map (\<lambda>pos. indices ! \<pi> pos) [0..<n])
      = image_mset ((!) indices) (image_mset \<pi> (mset [0..<n]))"
    by (simp add: image_mset.compositionality comp_def)
  also have "mset [0..<n] = mset_set {0..<n}" by (metis mset_set_set distinct_upt set_upt)
  also have "image_mset \<pi> (mset_set {0..<n}) = mset_set (\<pi> ` {0..<n})"
    using inj by (rule image_mset_mset_set)
  also have "\<dots> = mset [0..<n]" unfolding im by (metis mset_set_set distinct_upt set_upt)
  also have "image_mset ((!) indices) (mset [0..<n]) = mset (map ((!) indices) [0..<n])" by simp
  also have "map ((!) indices) [0..<n] = indices"
    unfolding assms(2) [symmetric] by (rule map_nth)
  finally show ?thesis .
qed

lemma matching_factors_permuted:
  assumes bij: "bij_betw \<pi> {0..<n} {0..<n}" and len: "length indices = n"
    and M: "M \<in> matchings {0..<n} k"
  shows "matching_factors (map (\<lambda>pos. indices ! \<pi> pos) [0..<n]) n M
       = matching_factors indices n ((`) \<pi> ` M)"
proof -
  let ?idx' = "map (\<lambda>pos. indices ! \<pi> pos) [0..<n]"
  from bij have inj: "inj_on \<pi> {0..<n}" and im: "\<pi> ` {0..<n} = {0..<n}"
    by (auto simp: bij_betw_def)
  from M have sub: "\<And>e. e \<in> M \<Longrightarrow> e \<subseteq> {0..<n}" and finM: "finite M"
    by (auto simp: matchings_def)
  have U: "\<Union>M \<subseteq> {0..<n}" using sub by blast
  have fin_e: "\<And>e. e \<in> M \<Longrightarrow> finite e" using sub by (meson finite_atLeastLessThan finite_subset)
  have nth': "\<And>pos. pos < n \<Longrightarrow> ?idx' ! pos = indices ! \<pi> pos" by simp
  have listing: "mset (sorted_list_of_set A) = mset_set A" if "finite A" for A :: "nat set"
    using that by (metis mset_set_set distinct_sorted_list_of_set set_sorted_list_of_set)
  have atom: "delta_atom ?idx' e = delta_atom indices (\<pi> ` e)" if "e \<in> M" for e
  proof -
    from that have e: "e \<subseteq> {0..<n}" "finite e" using sub fin_e by auto
    have inje: "inj_on \<pi> e" using inj e(1) by (rule inj_on_subset)
    have "mset (map ((!) ?idx') (sorted_list_of_set e)) = image_mset ((!) ?idx') (mset_set e)"
      by (simp add: listing [OF e(2)])
    also have "\<dots> = image_mset (\<lambda>a. indices ! \<pi> a) (mset_set e)"
    proof (rule image_mset_cong)
      fix a assume "a \<in># mset_set e"
      with e have "a < n" by auto
      then show "?idx' ! a = indices ! \<pi> a" by (rule nth')
    qed
    also have "\<dots> = image_mset ((!) indices) (image_mset \<pi> (mset_set e))"
      by (simp add: image_mset.compositionality comp_def)
    also have "image_mset \<pi> (mset_set e) = mset_set (\<pi> ` e)"
      using inje by (rule image_mset_mset_set)
    also have "image_mset ((!) indices) (mset_set (\<pi> ` e))
        = mset (map ((!) indices) (sorted_list_of_set (\<pi> ` e)))"
      using e(2) by (simp add: listing)
    finally have "sort (map ((!) ?idx') (sorted_list_of_set e))
        = sort (map ((!) indices) (sorted_list_of_set (\<pi> ` e)))"
      by (rule sort_mset_cong)
    then show ?thesis by (simp only: delta_atom_def)
  qed
  have injM: "inj_on ((`) \<pi>) M"
    by (rule inj_on_image) (rule inj_on_subset [OF inj U])
  have A: "image_mset (delta_atom ?idx') (mset_set M)
      = image_mset (delta_atom indices) (mset_set ((`) \<pi> ` M))"
  proof -
    have "image_mset (delta_atom ?idx') (mset_set M)
        = image_mset (\<lambda>e. delta_atom indices (\<pi> ` e)) (mset_set M)"
      by (rule image_mset_cong) (simp add: atom finM)
    also have "\<dots> = image_mset (delta_atom indices) (image_mset ((`) \<pi>) (mset_set M))"
      by (simp add: image_mset.compositionality comp_def)
    also have "image_mset ((`) \<pi>) (mset_set M) = mset_set ((`) \<pi> ` M)"
      using injM by (rule image_mset_mset_set)
    finally show ?thesis .
  qed
  let ?U = "{0..<n} - \<Union>M"
  have imU: "\<pi> ` ?U = {0..<n} - \<Union>((`) \<pi> ` M)"
  proof -
    have "\<pi> ` ?U = \<pi> ` {0..<n} - \<pi> ` \<Union>M"
      using inj U by (intro inj_on_image_set_diff [where C = "{0..<n}"]) auto
    also have "\<pi> ` \<Union>M = \<Union>((`) \<pi> ` M)" by blast
    finally show ?thesis by (simp add: im)
  qed
  have B: "image_mset (\<lambda>pos. nf_base (App ''xa'' [?idx' ! pos])) (mset_set ?U)
      = image_mset (\<lambda>pos. nf_base (App ''xa'' [indices ! pos]))
          (mset_set ({0..<n} - \<Union>((`) \<pi> ` M)))"
  proof -
    have "image_mset (\<lambda>pos. nf_base (App ''xa'' [?idx' ! pos])) (mset_set ?U)
        = image_mset (\<lambda>pos. nf_base (App ''xa'' [indices ! \<pi> pos])) (mset_set ?U)"
      by (rule image_mset_cong) (simp add: nth')
    also have "\<dots> = image_mset (\<lambda>pos. nf_base (App ''xa'' [indices ! pos]))
        (image_mset \<pi> (mset_set ?U))"
      by (simp add: image_mset.compositionality comp_def)
    also have "image_mset \<pi> (mset_set ?U) = mset_set (\<pi> ` ?U)"
      by (rule image_mset_mset_set) (rule inj_on_subset [OF inj], blast)
    finally show ?thesis by (simp only: imU)
  qed
  show ?thesis unfolding matching_factors_def A B ..
qed

lemma pairing_products_permuted:
  assumes bij: "bij_betw \<pi> {0..<n} {0..<n}" and len: "length indices = n"
    and en: "enumerates n k ps"
  shows "image_mset (\<lambda>p. canon (sym_delta
            (spec_pairing_product xa (map (\<lambda>pos. indices ! \<pi> pos) [0..<n]) n p))) (mset ps)
       = image_mset (\<lambda>p. canon (sym_delta (spec_pairing_product xa indices n p))) (mset ps)"
proof -
  let ?idx' = "map (\<lambda>pos. indices ! \<pi> pos) [0..<n]"
  let ?\<Psi> = "\<lambda>idx M. nf_mul (nf_num 1) (nf_prod (matching_factors idx n M))"
  let ?Mk = "matchings {0..<n} k"
  from bij have inj: "inj_on \<pi> {0..<n}" and im: "\<pi> ` {0..<n} = {0..<n}"
    by (auto simp: bij_betw_def)
  from en have v: "\<And>p. p \<in> set ps \<Longrightarrow> valid_pairing n p"
    and d: "distinct (map pair_set ps)" and m: "pair_set ` set ps = ?Mk"
    by (auto simp: enumerates_def)
  have sets: "image_mset pair_set (mset ps) = mset_set ?Mk"
  proof -
    have "mset_set (set (map pair_set ps)) = mset (map pair_set ps)"
      using d by (rule mset_set_set)
    then show ?thesis using m by simp
  qed
  have via: "image_mset (\<lambda>p. canon (sym_delta (spec_pairing_product xa idx n p))) (mset ps)
      = image_mset (?\<Psi> idx) (mset_set ?Mk)" for idx
  proof -
    have "image_mset (\<lambda>p. canon (sym_delta (spec_pairing_product xa idx n p))) (mset ps)
        = image_mset (\<lambda>p. ?\<Psi> idx (pair_set p)) (mset ps)"
      by (rule image_mset_cong) (simp add: pairing_product_canon v)
    also have "\<dots> = image_mset (?\<Psi> idx) (image_mset pair_set (mset ps))"
      by (simp add: image_mset.compositionality comp_def)
    finally show ?thesis by (simp only: sets)
  qed
  have "image_mset (?\<Psi> ?idx') (mset_set ?Mk)
      = image_mset (\<lambda>M. ?\<Psi> indices ((`) \<pi> ` M)) (mset_set ?Mk)"
  proof (rule image_mset_cong)
    fix M assume "M \<in># mset_set ?Mk"
    then have "M \<in> ?Mk" by (simp add: finite_matchings)
    from matching_factors_permuted [OF bij len this]
    show "?\<Psi> ?idx' M = ?\<Psi> indices ((`) \<pi> ` M)" by simp
  qed
  also have "\<dots> = image_mset (?\<Psi> indices) (image_mset (\<lambda>M. (`) \<pi> ` M) (mset_set ?Mk))"
    by (simp add: image_mset.compositionality comp_def)
  also have "image_mset (\<lambda>M. (`) \<pi> ` M) (mset_set ?Mk) = mset_set ((\<lambda>M. (`) \<pi> ` M) ` ?Mk)"
    by (rule image_mset_mset_set) (rule matchings_image_inj [OF inj])
  also have "(\<lambda>M. (`) \<pi> ` M) ` ?Mk = ?Mk"
    using matchings_image [OF inj, of k] by (simp add: im)
  finally show ?thesis by (simp only: via)
qed

lemma pairing_sum_permuted:
  assumes "bij_betw \<pi> {0..<n} {0..<n}" "length indices = n" "enumerates n k ps"
  shows "canon (sym_delta (spec_pairing_sum xa (map (\<lambda>pos. indices ! \<pi> pos) [0..<n]) n ps))
       = canon (sym_delta (spec_pairing_sum xa indices n ps))"
  unfolding spec_pairing_sum_def canon_sym_fold_Add
  by (simp add: fold_nf_add pairing_products_permuted [OF assms])

lemma generate_pairings_enumerates: "enumerates n k (generate_pairings n k)"
  using generate_enumerates [of n k] by (auto simp: generate_pairings_def)

lemma trace_sum_permuted:
  assumes "bij_betw \<pi> {0..<n} {0..<n}" "length indices = n"
  shows "canon (sym_delta (spec_trace_sum xa ra0 s n (map (\<lambda>pos. indices ! \<pi> pos) [0..<n])))
       = canon (sym_delta (spec_trace_sum xa ra0 s n indices))"
proof -
  have "canon (sym_delta (spec_trace_term xa ra0 s n (map (\<lambda>pos. indices ! \<pi> pos) [0..<n]) k))
      = canon (sym_delta (spec_trace_term xa ra0 s n indices k))" for k
    by (simp add: spec_trace_term_def
        pairing_sum_permuted [OF assms generate_pairings_enumerates])
  then show ?thesis
    unfolding spec_trace_sum_def canon_sym_fold_Add by simp
qed

lemma main_term_permuted:
  assumes "bij_betw \<pi> {0..<n} {0..<n}" "length indices = n"
  shows "canon (sym_delta (fold (\<lambda>idx t. Mul t (xa idx)) (map (\<lambda>pos. indices ! \<pi> pos) [0..<n]) (Num c)))
       = canon (sym_delta (fold (\<lambda>idx t. Mul t (xa idx)) indices (Num c)))"
  unfolding canon_sym_fold_Mul
  by (simp add: fold_nf_mul mset_permuted [OF assms] del: mset_map)

section \<open>Expressions without a match are left unchanged\<close>

lemma strip_annotated [simp]: "strip (image_mset (map_prod (\<lambda>b. (b, f b)) id) m) = m"
  by (simp add: strip_def image_mset.compositionality comp_def)

lemma strip_annotated' [simp]: "strip (image_mset (map_prod (\<lambda>b. (b, f b)) (\<lambda>e. e)) m) = m"
  using strip_annotated [of f m] by (simp add: id_def)

lemma strip_sum_annotated [simp]:
  "image_mset (map_prod strip id)
     (image_mset (map_prod (image_mset (map_prod (\<lambda>b. (b, f b)) id)) id) s) = s"
  by (induction s) auto

lemma sum_ok_annotated:
  "sum_ok (image_mset (map_prod (image_mset (map_prod (\<lambda>b. (b, good b)) id)) id) s) \<longleftrightarrow>
     merge s = s \<and>
     (\<forall>t\<in>#s. snd t \<noteq> 0 \<and> merge (fst t) = fst t \<and> (\<forall>be\<in>#fst t. good (fst be)) \<and>
        mk_term (snd t) (fst t) = {#t#})"
  by (simp add: sum_ok_def term_ok_def)

lemma quiet_annotated:
  "(\<forall>t\<in>#image_mset (map_prod (image_mset (map_prod (\<lambda>b. (b, quiet_base r a b)) id)) id) s.
        term_quiet r t) \<longleftrightarrow>
   (\<forall>t\<in>#s. fst (r (fst t)) = {#} \<and> (\<forall>be\<in>#fst t. quiet_base r a (fst be)))"
  by (simp add: term_quiet_def)


lemmas contract_eval_top = contract_indices_eval contract_xa_xa_def contract_xa_n_eval
  contract_x_x_def contract_x_n_eval contract_n_n_def contract_delta_eval

lemma merge_nonzero:
  assumes "merge m = m" "be \<in># m"
  shows "snd be \<noteq> 0"
proof -
  from assms have "be \<in># merge m" by simp
  then show ?thesis by (auto simp: merge_alt finite_support_weight)
qed

lemma sum_mset_singletons: "\<Sum>\<^sub># (image_mset (\<lambda>x. {#x#}) M) = M"
  by (induction M) simp_all

lemma as_term_nf_pow_base:
  assumes "good b" "e \<noteq> 0"
  shows "as_term (nf_pow (base_nf b) e) = (1, {#(b, e)#})"
proof -
  have "as_term (base_nf b) = (1, {#(b, 1)#})"
    using assms(1) by (cases b) (simp_all add: base_nf_def as_term_longer)
  then show ?thesis
    using assms(2) by (simp add: nf_pow_def as_term_mk_term)
qed

lemma nf_prod_powers:
  assumes "\<And>be. be \<in># m \<Longrightarrow> as_term (g be) = (1, {#be#})"
  shows "nf_prod (image_mset g m) = mk_term 1 (merge m)"
proof -
  have "image_mset (\<lambda>p. fst (as_term p)) (image_mset g m) = image_mset (\<lambda>be. 1) m"
    unfolding image_mset.compositionality comp_def
    by (rule image_mset_cong) (simp add: assms)
  moreover have "image_mset (\<lambda>p. snd (as_term p)) (image_mset g m) = image_mset (\<lambda>be. {#be#}) m"
    unfolding image_mset.compositionality comp_def
    by (rule image_mset_cong) (simp add: assms)
  ultimately show ?thesis
    by (simp add: nf_prod_def sum_mset_singletons del: image_mset.compositionality)
qed

lemma rewrite_term_quiet:
  assumes c: "c \<noteq> 0" and m: "merge m = m" and g: "\<And>be. be \<in># m \<Longrightarrow> good (fst be)"
    and mk: "mk_term c m = {#(m, c)#}"
    and q: "fst (r m) = {#}" and r: "snd (r m) = {#}"
    and rw: "\<And>be. be \<in># m \<Longrightarrow> rw (fst be) = base_nf (fst be)"
  shows "rewrite_term r (image_mset (map_prod (\<lambda>b. (b, rw b)) id) m, c) = {#(m, c)#}"
proof -
  have pw: "image_mset (\<lambda>be. nf_pow (snd (fst be)) (snd be))
              (image_mset (map_prod (\<lambda>b. (b, rw b)) id) m)
          = image_mset (\<lambda>be. nf_pow (base_nf (fst be)) (snd be)) m"
    unfolding image_mset.compositionality comp_def
    by (rule image_mset_cong) (simp add: rw)
  have "nf_prod (image_mset (\<lambda>be. nf_pow (base_nf (fst be)) (snd be)) m) = mk_term 1 (merge m)"
  proof (rule nf_prod_powers)
    fix be assume be: "be \<in># m"
    from as_term_nf_pow_base [OF g [OF be] merge_nonzero [OF m be]]
    show "as_term (nf_pow (base_nf (fst be)) (snd be)) = (1, {#be#})" by simp
  qed
  then have "nf_mul (nf_num c) (nf_prod (image_mset (\<lambda>be. nf_pow (base_nf (fst be)) (snd be)) m))
      = mk_term c m"
    by (simp add: nf_mul_def as_term_mk_term m)
  moreover have st: "image_mset (\<lambda>be. (fst (fst be), snd be))
      (image_mset (map_prod (\<lambda>b. (b, rw b)) id) m) = m"
    using strip_annotated [of rw m] by (simp only: strip_def)
  ultimately show ?thesis
    unfolding rewrite_term_eval st q r
    by (simp add: pw mk del: image_mset.compositionality)
qed


lemma rewrite_sum_quiet:
  assumes ok: "merge s = s"
    and terms: "\<And>t. t \<in># s \<Longrightarrow> snd t \<noteq> 0 \<and> merge (fst t) = fst t \<and>
                  (\<forall>be\<in>#fst t. good (fst be)) \<and> mk_term (snd t) (fst t) = {#t#}"
    and q: "\<And>t. t \<in># s \<Longrightarrow> fst (r (fst t)) = {#}"
    and r: "\<And>m. fst (r m) = {#} \<Longrightarrow> snd (r m) = {#}"
    and rw: "\<And>t be. t \<in># s \<Longrightarrow> be \<in># fst t \<Longrightarrow> rw (fst be) = base_nf (fst be)"
  shows "rewrite_sum r (image_mset (map_prod (image_mset (map_prod (\<lambda>b. (b, rw b)) id)) id) s) = s"
proof -
  have "image_mset (rewrite_term r)
          (image_mset (map_prod (image_mset (map_prod (\<lambda>b. (b, rw b)) id)) id) s)
      = image_mset (\<lambda>t. {#t#}) s"
    unfolding image_mset.compositionality comp_def
  proof (rule image_mset_cong)
    fix t assume t: "t \<in># s"
    obtain m c where mc: "t = (m, c)" by (cases t)
    from terms [OF t] mc have "c \<noteq> 0" "merge m = m" "\<And>be. be \<in># m \<Longrightarrow> good (fst be)"
      "mk_term c m = {#(m, c)#}" by auto
    moreover from q [OF t] mc have qm: "fst (r m) = {#}" by simp
    moreover note r [OF qm]
    moreover from rw [OF t] mc have "\<And>be. be \<in># m \<Longrightarrow> rw (fst be) = base_nf (fst be)" by simp
    ultimately have "rewrite_term r (image_mset (map_prod (\<lambda>b. (b, rw b)) id) m, c) = {#(m, c)#}"
      by (rule rewrite_term_quiet)
    then show "rewrite_term r (map_prod (image_mset (map_prod (\<lambda>b. (b, rw b)) id)) id t) = {#t#}"
      by (simp add: mc)
  qed
  then show ?thesis
    by (simp only: rewrite_sum_def nf_sum_def sum_mset_singletons ok)
qed

lemma rewrite_base_quiet:
  assumes r: "\<And>m. fst (r m) = {#} \<Longrightarrow> snd (r m) = {#}"
  shows "good b \<Longrightarrow> quiet_base r a b \<Longrightarrow> rewrite_base r a b = base_nf b"
proof (induction b)
  case (Var s)
  then show ?case by (simp add: base_nf_def)
next
  case (App f args)
  then show ?case by (simp add: base_nf_def)
next
  case (Paren s)
  from Paren.prems(1) have ok: "merge s = s"
    and terms: "\<And>t. t \<in># s \<Longrightarrow> snd t \<noteq> 0 \<and> merge (fst t) = fst t \<and>
                  (\<forall>be\<in>#fst t. good (fst be)) \<and> mk_term (snd t) (fst t) = {#t#}"
    by (simp_all add: sum_ok_annotated)
  from Paren.prems(2)
  have "\<forall>t\<in>#s. fst (r (fst t)) = {#} \<and> (\<forall>be\<in>#fst t. quiet_base r a (fst be))"
    unfolding quiet_base.simps quiet_annotated .
  then have q: "\<And>t. t \<in># s \<Longrightarrow> fst (r (fst t)) = {#}"
    and qb: "\<And>t be. t \<in># s \<Longrightarrow> be \<in># fst t \<Longrightarrow> quiet_base r a (fst be)"
    by blast+
  have rw: "rewrite_base r a (fst be) = base_nf (fst be)" if "t \<in># s" "be \<in># fst t" for t be
  proof (rule Paren.IH)
    show "t \<in># s" by (rule that(1))
    show "fst t \<in> Basic_BNFs.fsts t" by (cases t) simp
    show "be \<in># fst t" by (rule that(2))
    show "fst be \<in> Basic_BNFs.fsts be" by (cases be) simp
    show "good (fst be)" using terms [OF that(1)] that(2) by blast
    show "quiet_base r a (fst be)" using qb [OF that] .
  qed
  from rewrite_sum_quiet [of s r "rewrite_base r a", OF ok terms q r rw]
  show ?case by (simp add: base_nf_def)
qed

lemma replace_quiet:
  assumes r: "\<And>m. fst (r m) = {#} \<Longrightarrow> snd (r m) = {#}"
    and c: "canonical_expr p" and q: "quiet r a p"
  shows "replace r a p = p"
proof -
  from c have ok: "merge p = p"
    and terms: "\<And>t. t \<in># p \<Longrightarrow> snd t \<noteq> 0 \<and> merge (fst t) = fst t \<and>
                  (\<forall>be\<in>#fst t. good (fst be)) \<and> mk_term (snd t) (fst t) = {#t#}"
    by (simp_all add: canonical_expr_def sum_ok_annotated)
  from q
  have "\<forall>t\<in>#p. fst (r (fst t)) = {#} \<and> (\<forall>be\<in>#fst t. quiet_base r a (fst be))"
    unfolding quiet_def quiet_annotated .
  then have qt: "\<And>t. t \<in># p \<Longrightarrow> fst (r (fst t)) = {#}"
    and qb: "\<And>t be. t \<in># p \<Longrightarrow> be \<in># fst t \<Longrightarrow> quiet_base r a (fst be)"
    by blast+
  have rw: "rewrite_base r a (fst be) = base_nf (fst be)" if "t \<in># p" "be \<in># fst t" for t be
    using terms [OF that(1)] that(2) qb [OF that] by (intro rewrite_base_quiet [OF r]) auto
  from rewrite_sum_quiet [of p r "rewrite_base r a", OF ok terms qt r rw]
  show ?thesis by (simp add: replace_def)
qed

lemma square_rule_none: "fst (square_rule f rep m) = {#} \<Longrightarrow> snd (square_rule f rep m) = {#}"
  by (simp add: square_rule_eval)

lemma pair_rule_none: "fst (pair_rule f g rep m) = {#} \<Longrightarrow> snd (pair_rule f g rep m) = {#}"
  by (simp add: pair_rule_eval)

lemma delta_rule_none: "fst (delta_rule v m) = {#} \<Longrightarrow> snd (delta_rule v m) = {#}"
  by (simp add: delta_rule_eval)

lemma no_rule_none: "fst (no_rule m) = {#} \<Longrightarrow> snd (no_rule m) = {#}"
  by (simp add: no_rule_def)

lemma contract_indices_pattern_free:
  assumes "canonical_expr p" "pattern_free p"
  shows "contract_indices p = p"
  using assms
  by (simp add: pattern_free_def contract_eval_top
      replace_quiet [OF square_rule_none] replace_quiet [OF pair_rule_none]
      replace_quiet [OF delta_rule_none] replace_quiet [OF no_rule_none])

lemma fixed_example_canonical:
  "canonical_expr
     {#({#(Var ''ra0'', 2), (App ''xa'' [''k''], 1)#}, 15),
       ({#(Var ''ra0'', 2),
          (Paren {#({#(App ''xa'' [''k''], 1)#}, 3),
                   ({#(App ''delta'' [''i'', ''k''], 1), (App ''xa'' [''i''], 1)#}, 2)#}, 1)#}, - 3)#}"
  by (simp add: canonical_expr_def sum_ok_def term_ok_def strip_def nf_eval mset_decide)

lemma fixed_example_pattern_free:
  "pattern_free
     {#({#(Var ''ra0'', 2), (App ''xa'' [''k''], 1)#}, 15),
       ({#(Var ''ra0'', 2),
          (Paren {#({#(App ''xa'' [''k''], 1)#}, 3),
                   ({#(App ''delta'' [''i'', ''k''], 1), (App ''xa'' [''i''], 1)#}, 2)#}, 1)#}, - 3)#}"
  unfolding pattern_free_def quiet_def
  by (simp add: term_quiet_def strip_def square_rule_eval pair_rule_eval delta_rule_eval no_rule_def
      delta_trace_def is_app1_def pair_partner_def delta_partner_def delta_firsts_def label_of_def)

section \<open>Claims about the pairing generator\<close>

text \<open>C7. For every \<open>n \<ge> 0\<close> and every \<open>k\<close> with \<open>2 * k > n\<close>, the generator returns
  the empty list of pairings; the result is a value (\<open>Inr\<close>), so no error is raised.\<close>

theorem generate_k_pairings_too_many:
  "2 * k > n \<Longrightarrow> generate_k_pairings n k = Inr []"
  by (rule generate_too_many)

theorem generate_k_pairings_too_many_witness:
  "2 * (3::nat) > 5 \<and> generate_k_pairings 5 3 = Inr []"
  using generate_k_pairings_too_many [of 5 3] by simp

text \<open>C2. For every \<open>n \<ge> 0\<close> and every \<open>k\<close> with \<open>0 \<le> k \<le> \<lfloor>n/2\<rfloor>\<close>, the generator returns
  a list of exactly \<open>n! / (2^k \<cdot> k! \<cdot> (n - 2k)!)\<close> pairings; the division is exact.\<close>

theorem generate_k_pairings_count:
  assumes "k \<le> n div 2"
  shows "\<exists>ps. generate_k_pairings n k = Inr ps \<and>
           length ps * (2 ^ k * fact k * fact (n - 2 * k)) = fact n \<and>
           length ps = fact n div (2 ^ k * fact k * fact (n - 2 * k))"
proof -
  from generate_enumerates [of n k] obtain ps
    where gen: "generate_k_pairings n k = Inr ps" and en: "enumerates n k ps" by blast
  from assms have "2 * k \<le> n" by simp
  from card_matchings_formula [OF this] enumerates_length [OF en]
  have prod: "length ps * (2 ^ k * fact k * fact (n - 2 * k)) = fact n" by simp
  have "(0::nat) < 2 ^ k * fact k * fact (n - 2 * k)" by simp
  with prod have "length ps = fact n div (2 ^ k * fact k * fact (n - 2 * k))"
    by (metis nonzero_mult_div_cancel_right less_numeral_extra(3))
  with gen prod show ?thesis by blast
qed

theorem generate_k_pairings_count_witness:
  "(2::nat) \<le> 5 div 2 \<and> (\<exists>ps. generate_k_pairings 5 2 = Inr ps \<and> length ps = 15)"
proof -
  have h: "(2::nat) \<le> 5 div 2" by simp
  have "fact (5::nat) div (2 ^ 2 * fact 2 * fact (5 - 2 * 2)) = (15::nat)"
    by (simp add: fact_numeral)
  with generate_k_pairings_count [OF h] h show ?thesis by auto
qed

text \<open>C6. For every \<open>n \<ge> 0\<close> and every \<open>k\<close>, no two pairings of the generator's output
  are equal as sets of unordered pairs, and in every returned pairing the \<open>2k\<close>
  positions are pairwise distinct.\<close>

theorem generate_k_pairings_no_duplicates:
  "\<exists>ps. generate_k_pairings n k = Inr ps \<and>
     distinct (map pair_set ps) \<and>
     (\<forall>p\<in>set ps. length (positions p) = 2 * k \<and> distinct (positions p))"
proof -
  from generate_enumerates [of n k] obtain ps
    where gen: "generate_k_pairings n k = Inr ps" and en: "enumerates n k ps" by blast
  from en have "distinct (map pair_set ps)"
    and "\<And>p. p \<in> set ps \<Longrightarrow> length (positions p) = 2 * k \<and> distinct (positions p)"
    by (auto simp: enumerates_def valid_pairing_def length_positions)
  with gen show ?thesis by blast
qed

theorem generate_k_pairings_no_duplicates_witness:
  "generate_k_pairings 4 2 = Inr [[(0, 1), (2, 3)], [(0, 2), (1, 3)], [(0, 3), (1, 2)]] \<and>
   distinct [pair_set [(0, 1), (2, 3)], pair_set [(0, 2), (1, 3)], pair_set [(0, 3), (1, 2)]] \<and>
   distinct (positions [(0, 1), (2, 3)]) \<and>
   distinct (positions [(0, 2), (1, 3)]) \<and>
   distinct (positions [(0, 3), (1, 2)])"
proof -
  have g: "generate_k_pairings 4 2 = Inr [[(0, 1), (2, 3)], [(0, 2), (1, 3)], [(0, 3), (1, 2)]]"
    by code_simp
  from generate_k_pairings_no_duplicates [of 4 2] g show ?thesis by simp
qed

section \<open>Claims about the builders\<close>

text \<open>C1. For every \<open>n \<ge> 3\<close> and every list of \<open>n\<close> index labels (distinct or not),
  \<open>nth_derivative_1_over_r\<close> returns \<open>(-1)^n\<close> times a numerator divided by
  \<open>r0^(2n+1)\<close>; the numerator is the double-factorial-weighted main product minus
  the pairing sum, taken with the field vector \<open>x\<close> and the field magnitude \<open>r0\<close>
  and with no alternating sign.  \<open>Q_tensor\<close> is the main product plus the same
  pairing sum taken with \<open>xa\<close>, \<open>ra0\<close> and the sign \<open>(-1)^k\<close>.\<close>

theorem nth_derivative_general:
  assumes "3 \<le> n" "int (length indices) = n"
  shows "nth_derivative_1_over_r n indices =
           Inr (Div (Mul (Num ((- 1) ^ nat n))
                      (Sub (spec_main_term x (nat n) indices)
                           (spec_trace_sum x r0 (\<lambda>k. 1) (nat n) indices)))
                    (Pwr r0 (2 * n + 1))) \<and>
         Q_tensor n indices =
           Inr (Add (spec_main_term xa (nat n) indices)
                    (spec_trace_sum xa ra0 (\<lambda>k. (- 1) ^ k) (nat n) indices))"
proof -
  from assms have len: "nat n \<le> length indices" and n: "int (nat n) = n" "\<bar>n\<bar> = n"
    by auto
  from assms(1) have "n \<noteq> 0" "n \<noteq> 1" "n \<noteq> 2" "0 \<le> n" by auto
  then show ?thesis
    by (simp add: nth_derivative_1_over_r_def Q_tensor_def recursive_derivative_ok [OF len]
        Q_n_general_ok [OF len] spec_main_term_def n)
qed

theorem nth_derivative_general_witness:
  "(3::int) \<le> 3 \<and> int (length [''i'', ''j'', ''k'']) = 3 \<and>
   nth_derivative_1_over_r 3 [''i'', ''j'', ''k''] =
     Inr (Div (Mul (Num (- 1))
            (Sub (Mul (Mul (Mul (Num 15) (x ''i'')) (x ''j'')) (x ''k''))
                 (Add (Num 0)
                   (Mul (Mul (Num 3) (Pwr r0 2))
                     (Add (Add (Add (Num 0)
                                 (Mul (Mul (Num 1) (delta ''i'' ''j'')) (x ''k'')))
                               (Mul (Mul (Num 1) (delta ''i'' ''k'')) (x ''j'')))
                          (Mul (Mul (Num 1) (delta ''j'' ''k'')) (x ''i'')))))))
          (Pwr r0 7))"
proof -
  have h: "(3::int) \<le> 3" "int (length [''i'', ''j'', ''k'']) = 3" by simp_all
  have "Inr (Div (Mul (Num ((- 1) ^ nat 3))
                      (Sub (spec_main_term x (nat 3) [''i'', ''j'', ''k''])
                           (spec_trace_sum x r0 (\<lambda>k. 1) (nat 3) [''i'', ''j'', ''k''])))
                    (Pwr r0 (2 * 3 + 1)))
      = (Inr (Div (Mul (Num (- 1))
            (Sub (Mul (Mul (Mul (Num 15) (x ''i'')) (x ''j'')) (x ''k''))
                 (Add (Num 0)
                   (Mul (Mul (Num 3) (Pwr r0 2))
                     (Add (Add (Add (Num 0)
                                 (Mul (Mul (Num 1) (delta ''i'' ''j'')) (x ''k'')))
                               (Mul (Mul (Num 1) (delta ''i'' ''k'')) (x ''j'')))
                          (Mul (Mul (Num 1) (delta ''j'' ''k'')) (x ''i'')))))))
          (Pwr r0 7)) :: py_error + expr)"
    by code_simp
  with nth_derivative_general [OF h] h show ?thesis by simp
qed

text \<open>C9 as stated fails: with a negative order, or with more labels than the order,
  both builders return an expression.\<close>

theorem invalid_order_counterexample:
  "Q_tensor (- 1) [] = Inr (Add (Num 1) (Num 0)) \<and>
   Q_tensor 0 [''i''] = Inr (Num 1) \<and>
   Q_tensor 1 [''i'', ''j''] = Inr (Fn ''xa'' [''i'']) \<and>
   nth_derivative_1_over_r 0 [''i''] = Inr (Div (Num 1) (Sym ''r0'')) \<and>
   nth_derivative_1_over_r 1 [''i'', ''j'']
     = Inr (Div (Mul (Neg (Num 1)) (Fn ''x'' [''i''])) (Pwr (Sym ''r0'') 3))"
  by code_simp

text \<open>C9, amended. \<open>Q_tensor\<close> and \<open>nth_derivative_1_over_r\<close> raise (an IndexError)
  exactly when \<open>n \<ge> 1\<close> and fewer than \<open>n\<close> labels are given; in every other case,
  which includes \<open>n < 0\<close> and more than \<open>n\<close> labels, they return an expression.\<close>

theorem builders_raise_iff:
  "((\<exists>e. Q_tensor n indices = Inl e) \<longleftrightarrow> 1 \<le> n \<and> int (length indices) < n) \<and>
   ((\<exists>e. nth_derivative_1_over_r n indices = Inl e) \<longleftrightarrow> 1 \<le> n \<and> int (length indices) < n)"
  using Q_tensor_raises_iff nth_derivative_raises_iff by blast

theorem builders_raise_iff_witness:
  "Q_tensor 3 [''i'', ''j''] = Inl IndexError \<and>
   nth_derivative_1_over_r 3 [''i'', ''j''] = Inl IndexError \<and>
   (1::int) \<le> 3 \<and> int (length [''i'', ''j'']) < 3"
proof -
  have "(1::int) \<le> 3 \<and> int (length [''i'', ''j'']) < 3" by simp
  with builders_raise_iff [of 3 "[''i'', ''j'']"] show ?thesis
    by (metis py_error.exhaust)
qed

text \<open>C5. \<open>Q_tensor\<close> returns the concrete values of the specification: \<open>1\<close> for
  \<open>n = 0\<close>, \<open>xa(i)\<close> for \<open>n = 1\<close>, and for \<open>n = 2\<close> and \<open>n = 3\<close> expressions whose canonical
  forms are those of \<open>3 xa(i) xa(j) - delta(i,j) ra0^2\<close> and of
  \<open>15 xa(i) xa(j) xa(k) - 3 ra0^2 (delta(i,j) xa(k) + delta(i,k) xa(j) + delta(j,k) xa(i))\<close>,
  for all labels \<open>i\<close>, \<open>j\<close>, \<open>k\<close> (distinct or not).\<close>

theorem Q_tensor_concrete_values:
  "Q_tensor 0 [] = Inr (Num 1) \<and>
   Q_tensor 1 [i] = Inr (xa i) \<and>
   (\<exists>e. Q_tensor 2 [i, j] = Inr e \<and>
        canon e = canon (Sub (Mul (Mul (Num 3) (xa i)) (xa j)) (Mul (delta i j) (Pwr ra0 2)))) \<and>
   (\<exists>e. Q_tensor 3 [i, j, k] = Inr e \<and>
        canon e = canon (Sub (Mul (Mul (Mul (Num 15) (xa i)) (xa j)) (xa k))
                          (Mul (Mul (Num 3) (Pwr ra0 2))
                            (Add (Add (Mul (delta i j) (xa k)) (Mul (delta i k) (xa j)))
                                 (Mul (delta j k) (xa i))))))"
proof -
  have "Q_tensor 0 [] = Inr (Num 1)" by (simp add: Q_tensor_def Q_0_def)
  moreover have "Q_tensor 1 [i] = Inr (xa i)" by (simp add: Q_tensor_def Q_1_def getitem_def)
  moreover have "Q_tensor 2 [i, j] = Q_n_general 2 [i, j]" by (simp add: Q_tensor_def)
  moreover have "Q_tensor 3 [i, j, k] = Q_n_general 3 [i, j, k]" by (simp add: Q_tensor_def)
  ultimately show ?thesis
    using canon_Q_2 [of i j] canon_Q_3 [of i j k]
    by (simp only: Q_n_general_2 Q_n_general_3) blast
qed

text \<open>C10. The general pairing-sum path produces, for \<open>n = 2\<close> and \<open>n = 3\<close>, expressions
  with the same canonical form as the hand-coded closed forms \<open>_Q_2\<close> and \<open>_Q_3\<close>, for
  all labels (distinct or not).\<close>

theorem Q_n_general_matches_closed_forms:
  "(\<exists>e. Q_n_general 2 [i, j] = Inr e \<and> canon e = canon (Q_2 i j)) \<and>
   (\<exists>e. Q_n_general 3 [i, j, k] = Inr e \<and> canon e = canon (Q_3 i j k))"
  using canon_Q_2 [of i j] canon_Q_3 [of i j k]
  by (simp only: Q_n_general_2 Q_n_general_3 Q_2_def Q_3_def Let_def) blast

section \<open>Claims about the contraction engine\<close>

text \<open>The traces the engine does contract to zero: the trace at \<open>n = 2\<close>, and at
  \<open>n = 3\<close> the trace over the last two labels, where every \<open>delta\<close> that meets a
  vector carries the vector's label in its second place.\<close>

lemma trace_contracts_to_zero:
  "(\<exists>e. Q_tensor 2 [i, i] = Inr e \<and> contract_indices (canon e) = nf_num 0) \<and>
   (k \<noteq> i \<longrightarrow> (\<exists>e. Q_tensor 3 [k, i, i] = Inr e \<and> contract_indices (canon e) = nf_num 0)) \<and>
   contract_indices (nf_num 0) = nf_num 0"
proof -
  have 2: "Q_tensor 2 [i, i] = Q_n_general 2 [i, i]" by (simp add: Q_tensor_def)
  have 3: "Q_tensor 3 [k, i, i] = Q_n_general 3 [k, i, i]" by (simp add: Q_tensor_def)
  have a: "\<exists>e. Q_tensor 2 [i, i] = Inr e \<and> contract_indices (canon e) = nf_num 0"
    unfolding 2 Q_n_general_2
    by (simp only: sum.inject ex_simps simp_thms Q_2_trace_canon Q_2_trace_contract)
       (simp add: nf_num_def)
  have b: "\<exists>e. Q_tensor 3 [k, i, i] = Inr e \<and> contract_indices (canon e) = nf_num 0"
    if "k \<noteq> i"
    unfolding 3 Q_n_general_3
    by (simp only: sum.inject ex_simps simp_thms Q_3_last_canon [OF that]
        Q_3_last_contract [OF that]) (simp add: nf_num_def)
  have c: "contract_indices (nf_num 0) = nf_num 0"
    by (simp add: contract_eval nf_eval)
  from a b c show ?thesis by blast
qed

text \<open>C3. Tracelessness under \<open>contract_indices\<close> is what the code itself expects:
  the module's own check builds \<open>Q_tensor(3, [i, i, k])\<close> under the words "Check
  traceless", and \<open>verify_Q_traceless\<close> builds the same shape, says that the contraction
  "should give 0" and reports "expected 0" otherwise.  The code does not deliver it
  at that very input: the fixed point of \<open>contract_indices\<close> on
  \<open>Q_tensor(3, [i, i, k])\<close> is reached after one pass, it is not the zero expression,
  and it has the value \<open>6\<close> when \<open>xa(i)\<close> is \<open>0\<close> and every other symbol is \<open>1\<close>.
  \<open>_contract_delta\<close> rewrites \<open>delta(i, j) * xa(j)\<close> only; the factor
  \<open>delta(i, k) * xa(i)\<close>, where the vector carries delta's first label, is left as it
  is, although the comment in \<open>_contract_delta\<close> calls that contraction the key to
  the tracelessness of the higher orders.  The sibling trace \<open>Q_tensor(3, [k, i, i])\<close>
  and the trace \<open>Q_tensor(2, [i, i])\<close> do contract to zero.\<close>

theorem tracelessness_fails_first_two_labels:
  "Q_tensor 3 [''i'', ''i'', ''k''] =
     Inr (Add (Mul (Mul (Mul (Num 15) (xa ''i'')) (xa ''i'')) (xa ''k''))
           (Add (Num 0)
             (Mul (Mul (Num (- 3)) (Pwr ra0 2))
               (Add (Add (Add (Num 0)
                       (Mul (Mul (Num 1) (delta ''i'' ''i'')) (xa ''k'')))
                       (Mul (Mul (Num 1) (delta ''i'' ''k'')) (xa ''i'')))
                  (Mul (Mul (Num 1) (delta ''i'' ''k'')) (xa ''i'')))))) \<and>
   contract_indices
     (canon (Add (Mul (Mul (Mul (Num 15) (xa ''i'')) (xa ''i'')) (xa ''k''))
           (Add (Num 0)
             (Mul (Mul (Num (- 3)) (Pwr ra0 2))
               (Add (Add (Add (Num 0)
                       (Mul (Mul (Num 1) (delta ''i'' ''i'')) (xa ''k'')))
                       (Mul (Mul (Num 1) (delta ''i'' ''k'')) (xa ''i'')))
                  (Mul (Mul (Num 1) (delta ''i'' ''k'')) (xa ''i'')))))))
     = {#({#(Var ''ra0'', 2), (App ''xa'' [''k''], 1)#}, 15),
         ({#(Var ''ra0'', 2),
            (Paren {#({#(App ''xa'' [''k''], 1)#}, 3),
                     ({#(App ''delta'' [''i'', ''k''], 1), (App ''xa'' [''i''], 1)#}, 2)#}, 1)#}, - 3)#} \<and>
   contract_indices
     {#({#(Var ''ra0'', 2), (App ''xa'' [''k''], 1)#}, 15),
       ({#(Var ''ra0'', 2),
          (Paren {#({#(App ''xa'' [''k''], 1)#}, 3),
                   ({#(App ''delta'' [''i'', ''k''], 1), (App ''xa'' [''i''], 1)#}, 2)#}, 1)#}, - 3)#}
     = {#({#(Var ''ra0'', 2), (App ''xa'' [''k''], 1)#}, 15),
         ({#(Var ''ra0'', 2),
            (Paren {#({#(App ''xa'' [''k''], 1)#}, 3),
                     ({#(App ''delta'' [''i'', ''k''], 1), (App ''xa'' [''i''], 1)#}, 2)#}, 1)#}, - 3)#} \<and>
   {#({#(Var ''ra0'', 2), (App ''xa'' [''k''], 1)#}, 15),
     ({#(Var ''ra0'', 2),
        (Paren {#({#(App ''xa'' [''k''], 1)#}, 3),
                 ({#(App ''delta'' [''i'', ''k''], 1), (App ''xa'' [''i''], 1)#}, 2)#}, 1)#}, - 3)#}
     \<noteq> nf_num 0 \<and>
   nf_val (\<lambda>f args. if f = ''xa'' \<and> args = [''i''] then 0 else 1)
     {#({#(Var ''ra0'', 2), (App ''xa'' [''k''], 1)#}, 15),
       ({#(Var ''ra0'', 2),
          (Paren {#({#(App ''xa'' [''k''], 1)#}, 3),
                   ({#(App ''delta'' [''i'', ''k''], 1), (App ''xa'' [''i''], 1)#}, 2)#}, 1)#}, - 3)#}
     = 6 \<and>
   (\<exists>e. Q_tensor 3 [''k'', ''i'', ''i''] = Inr e \<and> contract_indices (canon e) = nf_num 0) \<and>
   (\<exists>e. Q_tensor 2 [''i'', ''i''] = Inr e \<and> contract_indices (canon e) = nf_num 0)"
proof -
  have "Q_tensor 3 [''i'', ''i'', ''k''] = Q_n_general 3 [''i'', ''i'', ''k'']"
    by (simp add: Q_tensor_def)
  moreover have "nf_val (\<lambda>f args. if f = ''xa'' \<and> args = [''i''] then 0 else 1)
     {#({#(Var ''ra0'', 2), (App ''xa'' [''k''], 1)#}, 15),
       ({#(Var ''ra0'', 2),
          (Paren {#({#(App ''xa'' [''k''], 1)#}, 3),
                   ({#(App ''delta'' [''i'', ''k''], 1), (App ''xa'' [''i''], 1)#}, 2)#}, 1)#}, - 3)#}
     = 6"
    by (simp add: nf_val_def term_val_def)
  ultimately have first:
   "Q_tensor 3 [''i'', ''i'', ''k''] =
     Inr (Add (Mul (Mul (Mul (Num 15) (xa ''i'')) (xa ''i'')) (xa ''k''))
           (Add (Num 0)
             (Mul (Mul (Num (- 3)) (Pwr ra0 2))
               (Add (Add (Add (Num 0)
                       (Mul (Mul (Num 1) (delta ''i'' ''i'')) (xa ''k'')))
                       (Mul (Mul (Num 1) (delta ''i'' ''k'')) (xa ''i'')))
                  (Mul (Mul (Num 1) (delta ''i'' ''k'')) (xa ''i'')))))) \<and>
   contract_indices
     (canon (Add (Mul (Mul (Mul (Num 15) (xa ''i'')) (xa ''i'')) (xa ''k''))
           (Add (Num 0)
             (Mul (Mul (Num (- 3)) (Pwr ra0 2))
               (Add (Add (Add (Num 0)
                       (Mul (Mul (Num 1) (delta ''i'' ''i'')) (xa ''k'')))
                       (Mul (Mul (Num 1) (delta ''i'' ''k'')) (xa ''i'')))
                  (Mul (Mul (Num 1) (delta ''i'' ''k'')) (xa ''i'')))))))
     = {#({#(Var ''ra0'', 2), (App ''xa'' [''k''], 1)#}, 15),
         ({#(Var ''ra0'', 2),
            (Paren {#({#(App ''xa'' [''k''], 1)#}, 3),
                     ({#(App ''delta'' [''i'', ''k''], 1), (App ''xa'' [''i''], 1)#}, 2)#}, 1)#}, - 3)#} \<and>
   contract_indices
     {#({#(Var ''ra0'', 2), (App ''xa'' [''k''], 1)#}, 15),
       ({#(Var ''ra0'', 2),
          (Paren {#({#(App ''xa'' [''k''], 1)#}, 3),
                   ({#(App ''delta'' [''i'', ''k''], 1), (App ''xa'' [''i''], 1)#}, 2)#}, 1)#}, - 3)#}
     = {#({#(Var ''ra0'', 2), (App ''xa'' [''k''], 1)#}, 15),
         ({#(Var ''ra0'', 2),
            (Paren {#({#(App ''xa'' [''k''], 1)#}, 3),
                     ({#(App ''delta'' [''i'', ''k''], 1), (App ''xa'' [''i''], 1)#}, 2)#}, 1)#}, - 3)#} \<and>
   {#({#(Var ''ra0'', 2), (App ''xa'' [''k''], 1)#}, 15),
     ({#(Var ''ra0'', 2),
        (Paren {#({#(App ''xa'' [''k''], 1)#}, 3),
                 ({#(App ''delta'' [''i'', ''k''], 1), (App ''xa'' [''i''], 1)#}, 2)#}, 1)#}, - 3)#}
     \<noteq> nf_num 0 \<and>
   nf_val (\<lambda>f args. if f = ''xa'' \<and> args = [''i''] then 0 else 1)
     {#({#(Var ''ra0'', 2), (App ''xa'' [''k''], 1)#}, 15),
       ({#(Var ''ra0'', 2),
          (Paren {#({#(App ''xa'' [''k''], 1)#}, 3),
                   ({#(App ''delta'' [''i'', ''k''], 1), (App ''xa'' [''i''], 1)#}, 2)#}, 1)#}, - 3)#}
     = 6"
    by (simp only: Q_n_general_3 Q_3_trace_canon Q_3_trace_contract Q_3_trace_fixed)
       (simp add: nf_num_def)
  have "''k'' \<noteq> ''i''" by simp
  with trace_contracts_to_zero [of "''i''" "''k''"]
  have "(\<exists>e. Q_tensor 3 [''k'', ''i'', ''i''] = Inr e \<and> contract_indices (canon e) = nf_num 0) \<and>
        (\<exists>e. Q_tensor 2 [''i'', ''i''] = Inr e \<and> contract_indices (canon e) = nf_num 0)"
    by blast
  with first show ?thesis by (simp only: simp_thms)
qed

section \<open>Claims about symmetry\<close>

text \<open>C4 as stated fails: \<open>Q_tensor(2, [i, j])\<close> contains \<open>delta(i, j)\<close> and
  \<open>Q_tensor(2, [j, i])\<close> contains \<open>delta(j, i)\<close>; \<open>delta\<close> is a plain symbol, so the two
  canonical forms differ, and the two expressions have the values \<open>2\<close> and \<open>3\<close> when
  \<open>delta(j, i)\<close> is \<open>0\<close> and every other symbol is \<open>1\<close>.\<close>

theorem permutation_counterexample:
  "Q_tensor 2 [''i'', ''j''] =
     Inr (Add (Mul (Mul (Num 3) (xa ''i'')) (xa ''j''))
           (Add (Num 0)
             (Mul (Mul (Num (- 1)) (Pwr ra0 2)) (Add (Num 0) (Mul (Num 1) (delta ''i'' ''j'')))))) \<and>
   Q_tensor 2 [''j'', ''i''] =
     Inr (Add (Mul (Mul (Num 3) (xa ''j'')) (xa ''i''))
           (Add (Num 0)
             (Mul (Mul (Num (- 1)) (Pwr ra0 2)) (Add (Num 0) (Mul (Num 1) (delta ''j'' ''i'')))))) \<and>
   canon (Add (Mul (Mul (Num 3) (xa ''i'')) (xa ''j''))
           (Add (Num 0)
             (Mul (Mul (Num (- 1)) (Pwr ra0 2)) (Add (Num 0) (Mul (Num 1) (delta ''i'' ''j''))))))
     \<noteq> canon (Add (Mul (Mul (Num 3) (xa ''j'')) (xa ''i''))
           (Add (Num 0)
             (Mul (Mul (Num (- 1)) (Pwr ra0 2)) (Add (Num 0) (Mul (Num 1) (delta ''j'' ''i'')))))) \<and>
   nf_val (\<lambda>f args. if f = ''delta'' \<and> args = [''j'', ''i''] then 0 else 1)
     (canon (Add (Mul (Mul (Num 3) (xa ''i'')) (xa ''j''))
           (Add (Num 0)
             (Mul (Mul (Num (- 1)) (Pwr ra0 2)) (Add (Num 0) (Mul (Num 1) (delta ''i'' ''j''))))))) = 2 \<and>
   nf_val (\<lambda>f args. if f = ''delta'' \<and> args = [''j'', ''i''] then 0 else 1)
     (canon (Add (Mul (Mul (Num 3) (xa ''j'')) (xa ''i''))
           (Add (Num 0)
             (Mul (Mul (Num (- 1)) (Pwr ra0 2)) (Add (Num 0) (Mul (Num 1) (delta ''j'' ''i''))))))) = 3"
proof -
  have q: "Q_tensor 2 [a, b] = Q_n_general 2 [a, b]" for a b by (simp add: Q_tensor_def)
  have c1: "canon (Add (Mul (Mul (Num 3) (xa ''i'')) (xa ''j''))
           (Add (Num 0)
             (Mul (Mul (Num (- 1)) (Pwr ra0 2)) (Add (Num 0) (Mul (Num 1) (delta ''i'' ''j''))))))
      = {#({#(App ''xa'' [''i''], 1), (App ''xa'' [''j''], 1)#}, 3),
          ({#(Var ''ra0'', 2), (App ''delta'' [''i'', ''j''], 1)#}, - 1)#}"
    by (simp add: nf_eval mset_decide)
  have c2: "canon (Add (Mul (Mul (Num 3) (xa ''j'')) (xa ''i''))
           (Add (Num 0)
             (Mul (Mul (Num (- 1)) (Pwr ra0 2)) (Add (Num 0) (Mul (Num 1) (delta ''j'' ''i''))))))
      = {#({#(App ''xa'' [''i''], 1), (App ''xa'' [''j''], 1)#}, 3),
          ({#(Var ''ra0'', 2), (App ''delta'' [''j'', ''i''], 1)#}, - 1)#}"
    by (simp add: nf_eval mset_decide)
  show ?thesis
    unfolding q Q_n_general_2 c1 c2
    by (simp add: mset_decide nf_val_def term_val_def)
qed

text \<open>C4, amended.  For every \<open>n \<ge> 0\<close>, every list of \<open>n\<close> labels and every permutation
  of its positions, \<open>Q_tensor\<close> of the list and \<open>Q_tensor\<close> of the permuted list have the
  same canonical form once \<open>delta(a, b)\<close> and \<open>delta(b, a)\<close> are identified.\<close>

theorem Q_tensor_symmetric_up_to_delta:
  assumes "bij_betw \<pi> {0..<n} {0..<n}" "length indices = n"
  shows "\<exists>e e'. Q_tensor (int n) indices = Inr e \<and>
           Q_tensor (int n) (map (\<lambda>pos. indices ! \<pi> pos) [0..<n]) = Inr e' \<and>
           canon (sym_delta e) = canon (sym_delta e')"
proof -
  let ?idx' = "map (\<lambda>pos. indices ! \<pi> pos) [0..<n]"
  consider "n = 0" | "n = 1" | "2 \<le> n" by linarith
  then show ?thesis
  proof cases
    case 1
    then show ?thesis by (simp add: Q_tensor_def)
  next
    case 2
    with assms(1) have "\<pi> 0 \<in> {0..<1}" by (auto simp: bij_betw_def)
    then have "\<pi> 0 = 0" by simp
    with 2 assms(2) show ?thesis by (simp add: Q_tensor_def getitem_def)
  next
    case 3
    have len: "nat (int n) \<le> length indices" "nat (int n) \<le> length ?idx'"
      using assms(2) by simp_all
    from 3 have "int n \<noteq> 0" "int n \<noteq> 1" by auto
    then have "Q_tensor (int n) indices = Q_n_general (int n) indices"
      and "Q_tensor (int n) ?idx' = Q_n_general (int n) ?idx'"
      by (simp_all add: Q_tensor_def)
    then show ?thesis
      unfolding Q_n_general_ok [OF len(1)] Q_n_general_ok [OF len(2)]
      by (simp add: main_term_permuted [OF assms] trace_sum_permuted [OF assms])
  qed
qed

theorem Q_tensor_symmetric_up_to_delta_witness:
  "bij_betw (\<lambda>pos. 1 - pos) {0..<2} {0..<2::nat} \<and> length [''i'', ''j''] = 2 \<and>
   (\<exists>e e'. Q_tensor 2 [''i'', ''j''] = Inr e \<and> Q_tensor 2 [''j'', ''i''] = Inr e' \<and>
      canon (sym_delta e) = canon (sym_delta e'))"
proof -
  have b: "bij_betw (\<lambda>pos. 1 - pos) {0..<2} {0..<2::nat}"
    by (rule bij_betwI [where g = "\<lambda>pos. 1 - pos"]) auto
  have l: "length [''i'', ''j''] = 2" by simp
  have "map (\<lambda>pos. [''i'', ''j''] ! (1 - pos)) [0..<2] = [''j'', ''i'']"
    by (simp add: upt_rec numeral_2_eq_2)
  with Q_tensor_symmetric_up_to_delta [OF b l] b show ?thesis by simp
qed

section \<open>Claims about fixed points of the contraction engine\<close>

text \<open>C8. \<open>contract_indices\<close> is a total function that raises nothing.  If an
  expression is a fixed point, \<open>contract_indices e = e\<close>, a further pass returns \<open>e\<close>
  again.  In particular a canonical expression in which no pattern of the rule
  catalogue occurs is returned unchanged, by one pass and by every further pass.\<close>

theorem contract_indices_fixed_points:
  "(contract_indices e = e \<longrightarrow> contract_indices (contract_indices e) = e) \<and>
   (canonical_expr e \<and> pattern_free e \<longrightarrow>
      contract_indices e = e \<and> contract_indices (contract_indices e) = e)"
  by (simp add: contract_indices_pattern_free)

theorem contract_indices_fixed_points_witness:
  "contract_indices
     {#({#(Var ''ra0'', 2), (App ''xa'' [''k''], 1)#}, 15),
       ({#(Var ''ra0'', 2),
          (Paren {#({#(App ''xa'' [''k''], 1)#}, 3),
                   ({#(App ''delta'' [''i'', ''k''], 1), (App ''xa'' [''i''], 1)#}, 2)#}, 1)#}, - 3)#}
   = {#({#(Var ''ra0'', 2), (App ''xa'' [''k''], 1)#}, 15),
       ({#(Var ''ra0'', 2),
          (Paren {#({#(App ''xa'' [''k''], 1)#}, 3),
                   ({#(App ''delta'' [''i'', ''k''], 1), (App ''xa'' [''i''], 1)#}, 2)#}, 1)#}, - 3)#} \<and>
   contract_indices (contract_indices
     {#({#(Var ''ra0'', 2), (App ''xa'' [''k''], 1)#}, 15),
       ({#(Var ''ra0'', 2),
          (Paren {#({#(App ''xa'' [''k''], 1)#}, 3),
                   ({#(App ''delta'' [''i'', ''k''], 1), (App ''xa'' [''i''], 1)#}, 2)#}, 1)#}, - 3)#})
   = {#({#(Var ''ra0'', 2), (App ''xa'' [''k''], 1)#}, 15),
       ({#(Var ''ra0'', 2),
          (Paren {#({#(App ''xa'' [''k''], 1)#}, 3),
                   ({#(App ''delta'' [''i'', ''k''], 1), (App ''xa'' [''i''], 1)#}, 2)#}, 1)#}, - 3)#}"
  using contract_indices_fixed_points
    [of "{#({#(Var ''ra0'', 2), (App ''xa'' [''k''], 1)#}, 15),
       ({#(Var ''ra0'', 2),
          (Paren {#({#(App ''xa'' [''k''], 1)#}, 3),
                   ({#(App ''delta'' [''i'', ''k''], 1), (App ''xa'' [''i''], 1)#}, 2)#}, 1)#}, - 3)#}"]
    fixed_example_canonical fixed_example_pattern_free
  by blast

end
